theory Spec2Isabelle
  imports Complex_Main "HOL-Library.Multiset"
begin

section \<open>Python strings\<close>

text \<open>
  A Python \<open>str\<close> is modelled as a \<open>string\<close> (a list of characters); a character
  stands for a code point below 256. The functions of this section are the methods of
  \<open>str\<close> that the two dashboard pages call.
\<close>

text \<open>\<open>sub in s\<close>: \<open>sub\<close> occurs in \<open>s\<close> as a contiguous run.\<close>

fun contains :: "string \<Rightarrow> string \<Rightarrow> bool" where
  "contains sub [] = (sub = [])"
| "contains sub (c # cs) = (take (length sub) (c # cs) = sub \<or> contains sub cs)"

text \<open>\<open>str.isspace\<close> on one character (the white space among the code points below 256).\<close>

definition is_space :: "char \<Rightarrow> bool" where
  "is_space c = (c \<in> set [CHR 0x09, CHR 0x0A, CHR 0x0B, CHR 0x0C, CHR 0x0D,
                           CHR 0x1C, CHR 0x1D, CHR 0x1E, CHR 0x1F, CHR 0x20,
                           CHR 0x85, CHR 0xA0])"

text \<open>\<open>s.strip()\<close>, \<open>s.rstrip('.')\<close> and \<open>s.lower()\<close>; the letters with a lower case among the
  code points below 256 are the 26 of ASCII and the accented capitals \<open>0xC0\<close> to \<open>0xDE\<close>
  (without the multiplication sign \<open>0xD7\<close>).\<close>

definition strip :: "string \<Rightarrow> string" where
  "strip s = rev (dropWhile is_space (rev (dropWhile is_space s)))"

definition rstrip_chars :: "string \<Rightarrow> string \<Rightarrow> string" where
  "rstrip_chars chars s = rev (dropWhile (\<lambda>c. c \<in> set chars) (rev s))"

definition upper_case :: string where
  "upper_case =
     ''ABCDEFGHIJKLMNOPQRSTUVWXYZ''
     @ [CHR 0xC0, CHR 0xC1, CHR 0xC2, CHR 0xC3, CHR 0xC4, CHR 0xC5, CHR 0xC6, CHR 0xC7,
        CHR 0xC8, CHR 0xC9, CHR 0xCA, CHR 0xCB, CHR 0xCC, CHR 0xCD, CHR 0xCE, CHR 0xCF,
        CHR 0xD0, CHR 0xD1, CHR 0xD2, CHR 0xD3, CHR 0xD4, CHR 0xD5, CHR 0xD6,
        CHR 0xD8, CHR 0xD9, CHR 0xDA, CHR 0xDB, CHR 0xDC, CHR 0xDD, CHR 0xDE]"

definition lower_case :: string where
  "lower_case =
     ''abcdefghijklmnopqrstuvwxyz''
     @ [CHR 0xE0, CHR 0xE1, CHR 0xE2, CHR 0xE3, CHR 0xE4, CHR 0xE5, CHR 0xE6, CHR 0xE7,
        CHR 0xE8, CHR 0xE9, CHR 0xEA, CHR 0xEB, CHR 0xEC, CHR 0xED, CHR 0xEE, CHR 0xEF,
        CHR 0xF0, CHR 0xF1, CHR 0xF2, CHR 0xF3, CHR 0xF4, CHR 0xF5, CHR 0xF6,
        CHR 0xF8, CHR 0xF9, CHR 0xFA, CHR 0xFB, CHR 0xFC, CHR 0xFD, CHR 0xFE]"

definition lower_char :: "char \<Rightarrow> char" where
  "lower_char c = (case map_of (zip upper_case lower_case) c of Some l \<Rightarrow> l | None \<Rightarrow> c)"

definition lower :: "string \<Rightarrow> string" where
  "lower s = map lower_char s"

text \<open>\<open>s.split(sep)\<close> for a separator of one character: every occurrence splits, so
  empty words appear between adjacent separators, and \<open>''.split(' ')\<close> is \<open>['']\<close>.\<close>

fun split_on :: "char \<Rightarrow> string \<Rightarrow> string list" where
  "split_on sep [] = [[]]"
| "split_on sep (c # cs) =
     (if c = sep then [] # split_on sep cs
      else (case split_on sep cs of
              [] \<Rightarrow> [[c]]
            | w # ws \<Rightarrow> (c # w) # ws))"

text \<open>\<open>s.split(sep, 1)\<close> when \<open>sep\<close> occurs in \<open>s\<close>: the text before the first
  occurrence and the text after it.\<close>

definition split_first :: "char \<Rightarrow> string \<Rightarrow> string \<times> string" where
  "split_first sep s = (takeWhile (\<lambda>c. c \<noteq> sep) s, tl (dropWhile (\<lambda>c. c \<noteq> sep) s))"

text \<open>\<open>sep.join(words)\<close>.\<close>

fun join :: "string \<Rightarrow> string list \<Rightarrow> string" where
  "join sep [] = []"
| "join sep [w] = w"
| "join sep (w # ws) = w @ sep @ join sep ws"

section \<open>Python dictionaries\<close>

text \<open>
  A \<open>dict\<close> keeps its keys in insertion order, and the pages iterate over it, so a
  dictionary is an association list. Assigning to a key that is present replaces its
  value in place; assigning to a new key appends; \<open>del\<close> removes the entry.
\<close>

type_synonym ('k, 'v) dict = "('k \<times> 'v) list"

definition dict_has :: "('k, 'v) dict \<Rightarrow> 'k \<Rightarrow> bool" where
  "dict_has d k = (k \<in> set (map fst d))"

definition dict_get :: "('k, 'v) dict \<Rightarrow> 'k \<Rightarrow> 'v \<Rightarrow> 'v" where
  "dict_get d k dflt = (case map_of d k of Some v \<Rightarrow> v | None \<Rightarrow> dflt)"

fun dict_set :: "('k, 'v) dict \<Rightarrow> 'k \<Rightarrow> 'v \<Rightarrow> ('k, 'v) dict" where
  "dict_set [] k v = [(k, v)]"
| "dict_set (p # d) k v = (if fst p = k then (k, v) # d else p # dict_set d k v)"

definition dict_del :: "('k, 'v) dict \<Rightarrow> 'k \<Rightarrow> ('k, 'v) dict" where
  "dict_del d k = filter (\<lambda>p. fst p \<noteq> k) d"

section \<open>Python integers and floats\<close>

text \<open>\<open>str(i)\<close> for an integer: its decimal digits.\<close>

function str_of_nat :: "int \<Rightarrow> string" where
  "str_of_nat n =
     (if n < 10 then [''0123456789'' ! nat n]
      else str_of_nat (n div 10) @ [''0123456789'' ! nat (n mod 10)])"
  by pat_completeness auto
termination
  by (relation "measure (\<lambda>n. nat n)") (auto intro: int_div_less_self)

declare str_of_nat.simps [simp del]

definition str_of_int :: "int \<Rightarrow> string" where
  "str_of_int i = (if i < 0 then CHR ''-'' # str_of_nat (- i) else str_of_nat i)"

text \<open>
  A finite Python \<open>float\<close> (IEEE 754 binary64) is the number \<open>m * 2 ^ e\<close>, kept as the
  pair of an odd mantissa \<open>m\<close> and an exponent \<open>e\<close> (zero is \<open>Float 0 0\<close>), so that equal
  numbers are equal pairs. Every arithmetic operation rounds its exact result to 53
  bits, to nearest and ties to even, as the hardware does, and to a multiple of
  \<open>2 ^ - 1074\<close> where the result is smaller than \<open>2 ^ - 1022\<close> (gradual underflow). The
  operations on this type do not bound the result from above: a result of magnitude
  \<open>2 ^ 1024\<close> or more \<open>overflows\<close>, and what happens then depends on who computes:
  \<open>float(i)\<close> raises, numpy returns an infinity (\<open>npfloat\<close> below).
\<close>

datatype float = Float (mantissa: int) (exponent: int)

definition float_value :: "float \<Rightarrow> rat" where
  "float_value x = of_int (mantissa x) * 2 powi (exponent x)"

text \<open>\<open>p / q\<close> rounded to the nearest integer, ties to even (for \<open>q > 0\<close>).\<close>

definition round_half_even :: "int \<Rightarrow> int \<Rightarrow> int" where
  "round_half_even p q =
     (let f = p div q; r = p mod q
      in if 2 * r < q then f else if 2 * r > q then f + 1 else if even f then f else f + 1)"

function normalize_float :: "int \<Rightarrow> int \<Rightarrow> float" where
  "normalize_float m e =
     (if m = 0 then Float 0 0
      else if even m then normalize_float (m div 2) (e + 1)
      else Float m e)"
  by pat_completeness auto
termination
  by (relation "measure (\<lambda>(m, e). nat \<bar>m\<bar>)") auto

declare normalize_float.simps [simp del]

text \<open>The number of digits of \<open>n\<close> in base \<open>b\<close>, and from it the integer part of the
  logarithm of \<open>p / q\<close> in base \<open>b\<close> (for positive \<open>p\<close> and \<open>q\<close>).\<close>

function digits_count :: "int \<Rightarrow> int \<Rightarrow> nat" where
  "digits_count b n = (if n \<le> 0 \<or> b \<le> 1 then 0 else Suc (digits_count b (n div b)))"
  by pat_completeness auto
termination
  by (relation "measure (\<lambda>(b, n). nat n)") (auto intro: int_div_less_self)

declare digits_count.simps [simp del]

definition floor_log :: "int \<Rightarrow> int \<Rightarrow> int \<Rightarrow> int" where
  "floor_log b p q =
     (let k = int (digits_count b p) - int (digits_count b q)
      in if (if k \<ge> 0 then b ^ nat k * q \<le> p else q \<le> p * b ^ nat (- k)) then k else k - 1)"

text \<open>The float nearest to \<open>p / q\<close> (for \<open>q > 0\<close>): 53 bits from the leading one, but no
  bit below \<open>2 ^ - 1074\<close>. And the float nearest to \<open>m * b ^ e\<close>.\<close>

definition round_ratio :: "int \<Rightarrow> int \<Rightarrow> float" where
  "round_ratio p q =
     (if p = 0 then Float 0 0
      else
        (let a = \<bar>p\<bar>;
             e = max (floor_log 2 a q - 52) (- 1074);
             m = (if e \<ge> 0 then round_half_even a (q * 2 ^ nat e)
                  else round_half_even (a * 2 ^ nat (- e)) q)
         in normalize_float (sgn p * m) e))"

definition round_scaled :: "int \<Rightarrow> int \<Rightarrow> int \<Rightarrow> float" where
  "round_scaled m b e =
     (if e \<ge> 0 then round_ratio (m * b ^ nat e) 1 else round_ratio m (b ^ nat (- e)))"

text \<open>The rounded results of \<open>float(i)\<close>, \<open>x * y\<close>, \<open>x / y\<close> (for a divisor that is not
  zero) and \<open>x + y\<close>; \<open>x <= y\<close>; the integer nearest to \<open>x\<close>, ties to even; \<open>int(x)\<close>; and
  the test for a magnitude of \<open>2 ^ 1024\<close> or more, which no binary64 number has.\<close>

definition float_of_int :: "int \<Rightarrow> float" where
  "float_of_int i = round_ratio i 1"

definition fmul :: "float \<Rightarrow> float \<Rightarrow> float" where
  "fmul x y = round_scaled (mantissa x * mantissa y) 2 (exponent x + exponent y)"

definition fdiv :: "float \<Rightarrow> float \<Rightarrow> float" where
  "fdiv x y =
     (let d = exponent x - exponent y;
          p = mantissa x * (if d \<ge> 0 then 2 ^ nat d else 1);
          q = mantissa y * (if d < 0 then 2 ^ nat (- d) else 1)
      in if q < 0 then round_ratio (- p) (- q) else round_ratio p q)"

definition fadd :: "float \<Rightarrow> float \<Rightarrow> float" where
  "fadd x y =
     (let e = min (exponent x) (exponent y)
      in round_scaled
           (mantissa x * 2 ^ nat (exponent x - e) + mantissa y * 2 ^ nat (exponent y - e)) 2 e)"

definition fle :: "float \<Rightarrow> float \<Rightarrow> bool" where
  "fle x y =
     (let e = min (exponent x) (exponent y)
      in mantissa x * 2 ^ nat (exponent x - e) \<le> mantissa y * 2 ^ nat (exponent y - e))"

definition rint :: "float \<Rightarrow> int" where
  "rint x =
     (if exponent x \<ge> 0 then mantissa x * 2 ^ nat (exponent x)
      else round_half_even (mantissa x) (2 ^ nat (- exponent x)))"

definition float_trunc :: "float \<Rightarrow> int" where
  "float_trunc x =
     (if exponent x \<ge> 0 then mantissa x * 2 ^ nat (exponent x)
      else sgn (mantissa x) * (\<bar>mantissa x\<bar> div 2 ^ nat (- exponent x)))"

definition overflows :: "float \<Rightarrow> bool" where
  "overflows x = fle (Float 1 1024) (Float \<bar>mantissa x\<bar> (exponent x))"

text \<open>
  \<open>str(x)\<close> for a float: the shortest decimal numeral that reads back as \<open>x\<close> (of at most
  17 digits), tried from one digit upwards with the nearer of the two neighbouring
  numerals first, printed in positional notation when the decimal point falls within
  \<open>-4 < decpt \<le> 16\<close> and in exponent notation otherwise.
\<close>

function strip_zeros :: "int \<Rightarrow> int \<Rightarrow> int \<times> int" where
  "strip_zeros m e =
     (if m \<noteq> 0 \<and> m mod 10 = 0 then strip_zeros (m div 10) (e + 1) else (m, e))"
  by pat_completeness auto
termination
  by (relation "measure (\<lambda>(m, e). nat \<bar>m\<bar>)") auto

declare strip_zeros.simps [simp del]

definition decimal_candidates :: "float \<Rightarrow> nat \<Rightarrow> (int \<times> int) list" where
  "decimal_candidates x n =
     (let P = mantissa x * (if exponent x \<ge> 0 then 2 ^ nat (exponent x) else 1);
          Q = (if exponent x < 0 then 2 ^ nat (- exponent x) else 1);
          s = floor_log 10 P Q - int n + 1;
          num = P * (if s < 0 then 10 ^ nat (- s) else 1);
          den = Q * (if s \<ge> 0 then 10 ^ nat s else 1);
          r = round_half_even num den;
          other = (if r * den \<le> num then r + 1 else r - 1)
      in [(r, s), (other, s)])"

definition round_trips :: "float \<Rightarrow> int \<times> int \<Rightarrow> bool" where
  "round_trips x c = (round_scaled (fst c) 10 (snd c) = x)"

function shortest_from :: "float \<Rightarrow> nat \<Rightarrow> int \<times> int" where
  "shortest_from x n =
     (if n \<ge> 17 then hd (decimal_candidates x 17)
      else if round_trips x (hd (decimal_candidates x n)) then hd (decimal_candidates x n)
      else if round_trips x (last (decimal_candidates x n)) then last (decimal_candidates x n)
      else shortest_from x (Suc n))"
  by pat_completeness auto
termination
  by (relation "measure (\<lambda>(x, n). 17 - n)") auto

declare shortest_from.simps [simp del]

definition repr_positive :: "float \<Rightarrow> string" where
  "repr_positive x =
     (let (m, e) = shortest_from x 1;
          (m', e') = strip_zeros m e;
          digits = str_of_nat m';
          decpt = e' + int (length digits)
      in if decpt \<le> - 4 \<or> decpt > 16 then
           hd digits # (if length digits > 1 then CHR ''.'' # tl digits else [])
           @ ''e'' @ (if decpt - 1 < 0 then ''-'' else ''+'')
           @ (if \<bar>decpt - 1\<bar> < 10 then ''0'' else []) @ str_of_nat \<bar>decpt - 1\<bar>
         else if decpt \<le> 0 then ''0.'' @ replicate (nat (- decpt)) CHR ''0'' @ digits
         else if nat decpt \<ge> length digits then
           digits @ replicate (nat decpt - length digits) CHR ''0'' @ ''.0''
         else take (nat decpt) digits @ ''.'' @ drop (nat decpt) digits)"

definition float_repr :: "float \<Rightarrow> string" where
  "float_repr x =
     (if mantissa x = 0 then ''0.0''
      else if mantissa x < 0 then CHR ''-'' # repr_positive (Float (- mantissa x) (exponent x))
      else repr_positive x)"


text \<open>
  A value of a numpy \<open>float64\<close> array: a finite float, the negative zero, an infinity
  (\<open>Infinity True\<close> is the negative one) or the not-a-number. numpy raises no exception
  in arithmetic: a result too large becomes an infinity, a division by zero gives an
  infinity or the not-a-number, and a zero result carries a sign. \<open>ranged\<close> turns the
  rounded result of an operation into the value stored, given the sign that a zero
  result takes.
\<close>

datatype npfloat = Finite float | NegZero | Infinity bool | NotANumber

definition finite_part :: "npfloat \<Rightarrow> float" where
  "finite_part a = (case a of Finite x \<Rightarrow> x | _ \<Rightarrow> Float 0 0)"

definition is_inf :: "npfloat \<Rightarrow> bool" where
  "is_inf a = (case a of Infinity neg \<Rightarrow> True | _ \<Rightarrow> False)"

definition is_zero :: "npfloat \<Rightarrow> bool" where
  "is_zero a = (case a of Finite x \<Rightarrow> mantissa x = 0 | NegZero \<Rightarrow> True | _ \<Rightarrow> False)"

definition negative :: "npfloat \<Rightarrow> bool" where
  "negative a =
     (case a of
        Finite x \<Rightarrow> mantissa x < 0
      | NegZero \<Rightarrow> True
      | Infinity neg \<Rightarrow> neg
      | NotANumber \<Rightarrow> False)"

definition ranged :: "bool \<Rightarrow> float \<Rightarrow> npfloat" where
  "ranged neg x =
     (if mantissa x = 0 then (if neg then NegZero else Finite (Float 0 0))
      else if overflows x then Infinity (mantissa x < 0)
      else Finite x)"

text \<open>\<open>a + b\<close>, \<open>a * b\<close>, \<open>a / b\<close>, \<open>a > 0\<close>, \<open>numpy.rint(a)\<close> and \<open>str(a)\<close>.\<close>

definition np_add :: "npfloat \<Rightarrow> npfloat \<Rightarrow> npfloat" where
  "np_add a b =
     (if a = NotANumber \<or> b = NotANumber then NotANumber
      else if is_inf a then (if is_inf b \<and> negative a \<noteq> negative b then NotANumber else a)
      else if is_inf b then b
      else ranged (a = NegZero \<and> b = NegZero) (fadd (finite_part a) (finite_part b)))"

definition np_mul :: "npfloat \<Rightarrow> npfloat \<Rightarrow> npfloat" where
  "np_mul a b =
     (if a = NotANumber \<or> b = NotANumber then NotANumber
      else if is_inf a \<or> is_inf b then
        (if is_zero a \<or> is_zero b then NotANumber else Infinity (negative a \<noteq> negative b))
      else ranged (negative a \<noteq> negative b) (fmul (finite_part a) (finite_part b)))"

definition np_div :: "npfloat \<Rightarrow> npfloat \<Rightarrow> npfloat" where
  "np_div a b =
     (if a = NotANumber \<or> b = NotANumber then NotANumber
      else if is_inf a then
        (if is_inf b then NotANumber else Infinity (negative a \<noteq> negative b))
      else if is_inf b then (if negative a \<noteq> negative b then NegZero else Finite (Float 0 0))
      else if is_zero b then
        (if is_zero a then NotANumber else Infinity (negative a \<noteq> negative b))
      else ranged (negative a \<noteq> negative b) (fdiv (finite_part a) (finite_part b)))"

definition np_positive :: "npfloat \<Rightarrow> bool" where
  "np_positive a =
     (case a of Finite x \<Rightarrow> mantissa x > 0 | Infinity neg \<Rightarrow> \<not> neg | _ \<Rightarrow> False)"

definition np_rint :: "npfloat \<Rightarrow> npfloat" where
  "np_rint a =
     (case a of
        Finite x \<Rightarrow>
          (let n = rint x
           in if n = 0 then (if mantissa x < 0 then NegZero else Finite (Float 0 0))
              else Finite (float_of_int n))
      | _ \<Rightarrow> a)"

definition np_str :: "npfloat \<Rightarrow> string" where
  "np_str a =
     (case a of
        Finite x \<Rightarrow> float_repr x
      | NegZero \<Rightarrow> ''-0.0''
      | Infinity neg \<Rightarrow> (if neg then ''-inf'' else ''inf'')
      | NotANumber \<Rightarrow> ''nan'')"

text \<open>\<open>numpy.round(a, 1)\<close> multiplies by ten, rounds to an integer and divides by ten.\<close>

definition np_round1 :: "npfloat \<Rightarrow> npfloat" where
  "np_round1 a =
     np_div (np_rint (np_mul a (Finite (float_of_int 10)))) (Finite (float_of_int 10))"
section \<open>Tables read from CSV files\<close>

text \<open>
  A \<open>pandas.DataFrame\<close> is its list of column names and its rows; a row gives the cell
  of each column. A cell is what \<open>read_csv\<close> can produce: a missing value, a boolean, an
  integer, a float (finite or infinite) or a string.
\<close>

datatype cell = NaN | BoolV bool | IntV int | FloatV float | InfV bool | StrV string

record dataframe =
  columns :: "string list"
  rows :: "(string \<Rightarrow> cell) list"

definition empty_dataframe :: dataframe where
  "empty_dataframe = \<lparr>columns = [], rows = []\<rparr>"

text \<open>\<open>str(v)\<close> and \<open>pandas.notna(v)\<close> for the value \<open>v\<close> of a cell; \<open>InfV True\<close> is the
  negative infinity.\<close>

definition py_str :: "cell \<Rightarrow> string" where
  "py_str v =
     (case v of
        NaN \<Rightarrow> ''nan''
      | BoolV b \<Rightarrow> (if b then ''True'' else ''False'')
      | IntV i \<Rightarrow> str_of_int i
      | FloatV x \<Rightarrow> float_repr x
      | InfV neg \<Rightarrow> (if neg then ''-inf'' else ''inf'')
      | StrV s \<Rightarrow> s)"

definition notna :: "cell \<Rightarrow> bool" where
  "notna v = (v \<noteq> NaN)"

text \<open>
  The exceptions that cross a function boundary on the two pages. \<open>OtherException\<close>
  stands for any further subclass of \<open>Exception\<close> (a parser error, a permission error).
\<close>

datatype exn = UnicodeDecodeError | FileNotFoundError | ValueError | OverflowError | OtherException

text \<open>
  What the pages show to the user through \<open>st.error\<close>, \<open>st.success\<close> and \<open>st.info\<close>: one
  constructor for each message text, with the values that the text is formatted from.
\<close>

datatype chart_failure = InvalidData | NoValidDataPoints | Raised exn

datatype message =
    FailedToRead string exn
  | MissingColumns
  | LoadedQuestions nat
  | NoValidDataFound
  | ErrorLoadingData exn
  | ErrorCreatingChart chart_failure

text \<open>
  \<open>safe_read_csv\<close> (the same function on both pages). \<open>pandas.read_csv\<close> and the file
  system behind it are the parameter \<open>read_csv\<close>: called with a path and an optional
  encoding, it returns a table or raises. The result is the list of messages shown and
  either the table returned or the exception that leaves the function.
\<close>

definition encodings :: "string list" where
  "encodings = [''utf-8'', ''latin-1'', ''cp1252'', ''iso-8859-1'']"

fun try_encodings ::
  "(string \<Rightarrow> string option \<Rightarrow> exn + dataframe) \<Rightarrow> string \<Rightarrow> string list
     \<Rightarrow> (exn + dataframe) option" where
  "try_encodings read_csv file_path [] = None"
| "try_encodings read_csv file_path (encoding # rest) =
     (case read_csv file_path (Some encoding) of
        Inr df \<Rightarrow> Some (Inr df)
      | Inl e \<Rightarrow> (if e = UnicodeDecodeError then try_encodings read_csv file_path rest
                  else Some (Inl e)))"

definition safe_read_csv ::
  "(string \<Rightarrow> string option \<Rightarrow> exn + dataframe) \<Rightarrow> string
     \<Rightarrow> message list \<times> (exn + dataframe)" where
  "safe_read_csv read_csv file_path =
     (case try_encodings read_csv file_path encodings of
        Some result \<Rightarrow> ([], result)
      | None \<Rightarrow>
          (case read_csv file_path None of
             Inr df \<Rightarrow> ([], Inr df)
           | Inl e \<Rightarrow> ([FailedToRead file_path e], Inr empty_dataframe)))"

section \<open>General page: the Other-merge of the aggregator\<close>

text \<open>
  \<open>GeneralDataProcessor._merge_other_options\<close>. The loop visits every question and
  changes that question's option dictionary in place; \<open>merge_other\<close> is the body of the
  loop for one question, \<open>merge_other_options\<close> the loop. Counts are Python integers.
\<close>

definition merge_other :: "string \<Rightarrow> (string, int) dict \<Rightarrow> (string, int) dict" where
  "merge_other question_key options_data =
     (if contains ''Q4:'' question_key \<or> contains ''Q5:'' question_key then
        (let other_count = dict_get options_data ''Other'' 0;
             other_elaborated_count = dict_get options_data ''Other (elaborated answ)'' 0
         in if other_count > 0 \<or> other_elaborated_count > 0 then
              dict_set (dict_del (dict_del options_data ''Other'') ''Other (elaborated answ)'')
                ''Other'' (other_count + other_elaborated_count)
            else options_data)
      else options_data)"

definition merge_other_options ::
  "(string, (string, int) dict) dict \<Rightarrow> (string, (string, int) dict) dict" where
  "merge_other_options questions_data =
     map (\<lambda>(question_key, options_data). (question_key, merge_other question_key options_data))
       questions_data"

section \<open>General page: the aggregator\<close>

text \<open>
  \<open>int(s)\<close> for a string: white space around the numeral is dropped, a sign may lead,
  and the digits may be grouped by single underscores; anything else raises
  \<open>ValueError\<close> (\<open>None\<close> here).
\<close>

definition is_digit :: "char \<Rightarrow> bool" where
  "is_digit c = (c \<in> set ''0123456789'')"

definition digit_value :: "char \<Rightarrow> int" where
  "digit_value c = int (length (takeWhile (\<lambda>d. d \<noteq> c) ''0123456789''))"

fun int_digits :: "int \<Rightarrow> string \<Rightarrow> int option" where
  "int_digits acc [] = Some acc"
| "int_digits acc [c] = (if is_digit c then Some (acc * 10 + digit_value c) else None)"
| "int_digits acc (c # d # cs) =
     (if is_digit c then int_digits (acc * 10 + digit_value c) (d # cs)
      else if c = CHR ''_'' \<and> is_digit d then int_digits (acc * 10 + digit_value d) cs
      else None)"

definition int_numeral :: "string \<Rightarrow> int option" where
  "int_numeral s =
     (case s of
        [] \<Rightarrow> None
      | c # cs \<Rightarrow> (if is_digit c then int_digits (digit_value c) cs else None))"

definition int_of_string :: "string \<Rightarrow> int option" where
  "int_of_string s =
     (case strip s of
        [] \<Rightarrow> None
      | c # cs \<Rightarrow>
          (if c = CHR ''-'' then map_option uminus (int_numeral cs)
           else if c = CHR ''+'' then int_numeral cs
           else int_numeral (c # cs)))"

text \<open>\<open>int(v)\<close> for the value of a cell.\<close>

definition py_int :: "cell \<Rightarrow> exn + int" where
  "py_int v =
     (case v of
        NaN \<Rightarrow> Inl ValueError
      | BoolV b \<Rightarrow> Inr (if b then 1 else 0)
      | IntV i \<Rightarrow> Inr i
      | FloatV x \<Rightarrow> Inr (float_trunc x)
      | InfV neg \<Rightarrow> Inl OverflowError
      | StrV s \<Rightarrow> (case int_of_string s of Some i \<Rightarrow> Inr i | None \<Rightarrow> Inl ValueError))"

text \<open>
  The global year filter of \<open>load_data\<close>: with a selected year other than \<open>'All'\<close>, the
  rows are kept whose \<open>YEAR\<close> column (or else whose \<open>year\<close> column), as a trimmed string,
  is the selected year.
\<close>

definition year_filter :: "string \<Rightarrow> dataframe \<Rightarrow> dataframe" where
  "year_filter selected_year df =
     (if selected_year \<noteq> ''All'' then
        (if ''YEAR'' \<in> set (columns df) then
           df\<lparr>rows := filter (\<lambda>row. strip (py_str (row ''YEAR'')) = selected_year) (rows df)\<rparr>
         else if ''year'' \<in> set (columns df) then
           df\<lparr>rows := filter (\<lambda>row. strip (py_str (row ''year'')) = selected_year) (rows df)\<rparr>
         else df)
      else df)"

text \<open>
  The loop of \<open>load_data\<close> over the rows. \<open>row_question\<close>, \<open>row_option\<close> and
  \<open>row_count\<close> are the three values that the body computes from a row (the count is
  \<open>int(row['count']) if pd.notna(row['count']) else 0\<close>, which may raise); \<open>add_entry\<close> is
  the rest of the body, which stores the count. \<open>questions_data\<close> is threaded through
  the loop, and the exception of a failing \<open>int\<close> ends it.
\<close>

type_synonym survey_table = "(string, (string, int) dict) dict"

definition row_question :: "(string \<Rightarrow> cell) \<Rightarrow> string" where
  "row_question row = strip (py_str (row ''question''))"

definition row_option :: "(string \<Rightarrow> cell) \<Rightarrow> string" where
  "row_option row = strip (py_str (row ''option''))"

definition row_count :: "(string \<Rightarrow> cell) \<Rightarrow> exn + int" where
  "row_count row = (if notna (row ''count'') then py_int (row ''count'') else Inr 0)"

definition add_entry :: "survey_table \<Rightarrow> string \<Rightarrow> string \<Rightarrow> int \<Rightarrow> survey_table" where
  "add_entry questions_data question opt count_value =
     (let questions_data' =
            (if \<not> dict_has questions_data question
             then dict_set questions_data question [] else questions_data)
      in dict_set questions_data' question
           (dict_set (dict_get questions_data' question []) opt count_value))"

fun load_rows :: "(string \<Rightarrow> cell) list \<Rightarrow> survey_table \<Rightarrow> exn + survey_table" where
  "load_rows [] questions_data = Inr questions_data"
| "load_rows (row # rest) questions_data =
     (case row_count row of
        Inl e \<Rightarrow> Inl e
      | Inr count_value \<Rightarrow>
          load_rows rest
            (add_entry questions_data (row_question row) (row_option row) count_value))"

text \<open>
  \<open>GeneralDataProcessor.load_data\<close>: the messages shown and the \<open>questions_data\<close> that the
  processor holds afterwards. Every exception raised inside is caught by the handler at
  the end of the function, which reports it and leaves \<open>questions_data\<close> empty.
\<close>

definition load_data ::
  "(string \<Rightarrow> string option \<Rightarrow> exn + dataframe) \<Rightarrow> string \<Rightarrow> string
     \<Rightarrow> message list \<times> survey_table" where
  "load_data read_csv csv_file_path selected_year =
     (case safe_read_csv read_csv csv_file_path of
        (msgs, Inl e) \<Rightarrow> (msgs @ [ErrorLoadingData e], [])
      | (msgs, Inr df0) \<Rightarrow>
          (let df = year_filter selected_year df0
           in if ''question'' \<notin> set (columns df) \<or> ''option'' \<notin> set (columns df)
                 \<or> ''count'' \<notin> set (columns df)
              then (msgs @ [MissingColumns], [])
              else
                (case load_rows (rows df) [] of
                   Inl e \<Rightarrow> (msgs @ [ErrorLoadingData e], [])
                 | Inr questions_data \<Rightarrow>
                     (if questions_data \<noteq> []
                      then (msgs @ [LoadedQuestions (length questions_data)],
                            merge_other_options questions_data)
                      else (msgs @ [NoValidDataFound], [])))))"

text \<open>
  Two readings used to state what the loop computes: the count stored in
  \<open>questions_data\<close> for an option of a question, and the coerced count of the last row of
  a table that carries a given question and option.
\<close>

definition stored_count :: "survey_table \<Rightarrow> string \<Rightarrow> string \<Rightarrow> int option" where
  "stored_count questions_data q opt =
     (case map_of questions_data q of None \<Rightarrow> None | Some d \<Rightarrow> map_of d opt)"

definition last_row_count :: "(string \<Rightarrow> cell) list \<Rightarrow> string \<Rightarrow> string \<Rightarrow> int option" where
  "last_row_count table_rows q opt =
     (case find (\<lambda>row. row_question row = q \<and> row_option row = opt) (rev table_rows) of
        Some row \<Rightarrow> (case row_count row of Inr n \<Rightarrow> Some n | Inl e \<Rightarrow> None)
      | None \<Rightarrow> None)"

section \<open>Specialized page: the column-flag aggregator\<close>

text \<open>
  \<open>process_question_data\<close>. \<open>(data[col] == 'YES').sum()\<close> counts the rows whose cell in
  the column is the string \<open>YES\<close>; the loop over the known columns threads \<open>results\<close>.
\<close>

definition yes_count :: "dataframe \<Rightarrow> string \<Rightarrow> nat" where
  "yes_count data col = length (filter (\<lambda>row. row col = StrV ''YES'') (rows data))"

definition clean_name :: "string \<Rightarrow> string" where
  "clean_name col = rstrip_chars ''.'' (strip col)"

fun process_columns ::
  "dataframe \<Rightarrow> string list \<Rightarrow> (string, nat) dict \<Rightarrow> (string, nat) dict" where
  "process_columns data [] results = results"
| "process_columns data (col # rest) results =
     (if col \<in> set (columns data) then
        (if yes_count data col > 0
         then process_columns data rest (dict_set results (clean_name col) (yes_count data col))
         else process_columns data rest results)
      else process_columns data rest results)"

definition process_question_data :: "dataframe \<Rightarrow> string list \<Rightarrow> (string, nat) dict" where
  "process_question_data data question_columns = process_columns data question_columns []"

section \<open>Chart selection\<close>

text \<open>
  \<open>Visualizer.auto_select_chart_type\<close> of the general page, and the selection that the
  specialized page makes for each of its three groups
  (\<open>'bar' if len(results) >= 5 else 'pie'\<close>).
\<close>

definition auto_select_chart_type :: "(string, 'v) dict \<Rightarrow> string" where
  "auto_select_chart_type data =
     (if data = [] then ''table''
      else
        (let num_options = length data;
             max_label_length = Max (set (map (\<lambda>label. length label) (map fst data)))
         in if num_options \<le> 5 then ''pie''
            else if max_label_length > 20 \<or> num_options > 10 then ''horizontal_bar''
            else ''bar''))"

definition group_chart_type :: "(string, 'v) dict \<Rightarrow> string" where
  "group_chart_type results = (if length results \<ge> 5 then ''bar'' else ''pie'')"

section \<open>General page: title formatting\<close>

text \<open>
  \<open>process_title_for_display\<close>. The loop that packs the words of a long title into
  lines threads the line being filled and the lines already closed.
\<close>

definition max_length :: nat where
  "max_length = 50"

fun wrap_words :: "string list \<Rightarrow> string \<Rightarrow> string list \<Rightarrow> string list" where
  "wrap_words [] current_line lines =
     (if current_line \<noteq> [] then lines @ [current_line] else lines)"
| "wrap_words (word # rest) current_line lines =
     (if length current_line + length word + 1 \<le> max_length
      then wrap_words rest (current_line @ (if current_line \<noteq> [] then '' '' else []) @ word) lines
      else wrap_words rest word
             (if current_line \<noteq> [] then lines @ [current_line] else lines))"

definition wrap_title :: "string \<Rightarrow> string" where
  "wrap_title title =
     (if length title \<le> max_length then title
      else join ''<br>'' (wrap_words (split_on CHR '' '' title) [] []))"

definition process_title_for_display :: "string \<Rightarrow> string" where
  "process_title_for_display title =
     (if title = [] then title
      else if contains ''Q2:'' title \<or> contains ''Q3:'' title then
        (if CHR '':'' \<in> set title then
           (let parts = split_first CHR '':'' title;
                question_part = fst parts @ '':'';
                content_part = strip (snd parts);
                combined_length = length question_part + length content_part + 1
            in if combined_length \<le> 80 then title
               else
                 (let words = split_on CHR '' '' content_part
                  in if length words > 1 then
                       (let mid_point = length words div 2;
                            first_part = join '' '' (take mid_point words);
                            second_part = join '' '' (drop mid_point words)
                        in question_part @ '' '' @ first_part @ ''<br>'' @ second_part)
                     else question_part @ ''<br>'' @ content_part))
         else wrap_title title)
      else wrap_title title)"

section \<open>General page: chart and percentage table of the selected question\<close>

text \<open>
  The value stored under an option when it reaches the renderer: \<open>None\<close>, an integer, a
  finite float, or an object that is not a number (a string).
\<close>

datatype pyval = PNone | PInt int | PFloat float | PStr string

definition py_values :: "(string, int) dict \<Rightarrow> (string, pyval) dict" where
  "py_values d = map (\<lambda>(k, v). (k, PInt v)) d"

text \<open>
  \<open>create_layout\<close>, lines 765 to 780: for a question of group Q4 or Q5 with a positive
  total, the options whose label contains \<open>other\<close> are left out.
\<close>

definition filter_question_data :: "string \<Rightarrow> (string, int) dict \<Rightarrow> (string, int) dict" where
  "filter_question_data selected_question question_data =
     (if contains ''Q4:'' selected_question \<or> contains ''Q5:'' selected_question then
        (let total_count = (if question_data \<noteq> [] then sum_list (map snd question_data) else 0)
         in if total_count > 0
            then filter (\<lambda>(k, v). \<not> contains ''other'' (lower k)) question_data
            else question_data)
      else if contains ''Q2:'' selected_question then question_data
      else question_data)"

text \<open>
  A figure is one of the shapes that the pages build: a pie, a vertical or a horizontal
  bar chart (category labels, values, title), the error placeholder of the general page
  (the failure and the title) and the no-data placeholder of the specialized page (the
  group). Colours, fonts and sizes are left out.
\<close>

datatype 'v figure =
    PieChart "string list" "'v list" string
  | BarChart "string list" "'v list" string
  | HorizontalBarChart "string list" "'v list" string
  | ErrorChart chart_failure string
  | NoDataChart string

text \<open>
  \<open>float(i)\<close> for an integer: the nearest float, and \<open>OverflowError\<close> when that is out of
  range (from \<open>2 ^ 1024 - 2 ^ 970\<close> on).
\<close>

definition py_float :: "int \<Rightarrow> exn + float" where
  "py_float i = (let x = float_of_int i in if overflows x then Inl OverflowError else Inr x)"

text \<open>
  The cleaning loop of \<open>create_chart_unified\<close>; keys are strings, so no key is \<open>None\<close>.
  \<open>clean_value_of\<close> is the expression \<open>float(value) if isinstance(value, (int, float)) else 0\<close>
  of both loops. The handler inside the loop of the chart skips the option on a
  \<open>ValueError\<close> (or a \<open>TypeError\<close>); any other exception leaves the loop.
\<close>

definition clean_key_of :: "string \<Rightarrow> string" where
  "clean_key_of key = (if key \<noteq> [] then key else ''Unknown'')"

definition clean_value_of :: "pyval \<Rightarrow> exn + float" where
  "clean_value_of v =
     (case v of PInt i \<Rightarrow> py_float i | PFloat x \<Rightarrow> Inr x | _ \<Rightarrow> Inr (Float 0 0))"

fun clean_chart_data ::
  "(string, pyval) dict \<Rightarrow> (string, float) dict \<Rightarrow> exn + (string, float) dict" where
  "clean_chart_data [] clean_data = Inr clean_data"
| "clean_chart_data ((key, v) # rest) clean_data =
     (if v \<noteq> PNone then
        (let clean_key = clean_key_of key
         in case clean_value_of v of
              Inr clean_value \<Rightarrow>
                (if fle (Float 0 0) clean_value
                 then clean_chart_data rest (dict_set clean_data clean_key clean_value)
                 else clean_chart_data rest clean_data)
            | Inl e \<Rightarrow>
                (if e = ValueError then clean_chart_data rest clean_data else Inl e))
      else clean_chart_data rest clean_data)"

text \<open>
  \<open>create_chart_unified\<close>. The chart function of the style module \<open>st_styles\<close> is the
  parameter \<open>styled\<close>: \<open>None\<close> when the module could not be imported
  (\<open>STYLES_AVAILABLE\<close> is false) and the backup figure is built here. The result is the
  messages shown and the figure returned; every exception is caught and replaced by the
  error placeholder.
\<close>

definition create_chart_unified ::
  "((string, float) dict \<Rightarrow> string \<Rightarrow> string \<Rightarrow> exn + float figure) option
     \<Rightarrow> (string, pyval) dict \<Rightarrow> string \<Rightarrow> string \<Rightarrow> message list \<times> float figure" where
  "create_chart_unified styled data chart_type title =
     (let attempt =
           (if data = [] then Inl InvalidData
            else
              (case clean_chart_data data [] of
                 Inl e \<Rightarrow> Inl (Raised e)
               | Inr clean_data \<Rightarrow>
                   (if clean_data = [] then Inl NoValidDataPoints
                    else
                      (let processed_title = process_title_for_display title
                       in case styled of
                            Some create_chart \<Rightarrow>
                              (case create_chart clean_data chart_type processed_title of
                                 Inl e \<Rightarrow> Inl (Raised e)
                               | Inr fig \<Rightarrow> Inr fig)
                          | None \<Rightarrow>
                              (let categories = map fst clean_data;
                                   vals = map snd clean_data
                               in if chart_type = ''pie''
                                  then Inr (PieChart categories vals processed_title)
                                  else if chart_type = ''horizontal_bar''
                                  then Inr (HorizontalBarChart categories vals processed_title)
                                  else Inr (BarChart categories vals processed_title))))))
      in case attempt of
           Inr fig \<Rightarrow> ([], fig)
         | Inl failure \<Rightarrow>
             ([ErrorCreatingChart failure],
              ErrorChart failure (if title \<noteq> [] then title else ''Chart Error'')))"

text \<open>
  The percentage table of \<open>create_layout\<close>, lines 796 to 833. \<open>valid_items\<close> is the list
  of pairs that the loop collects; the loop has no handler of its own, so an exception
  of \<open>float(value)\<close> ends it. \<open>sort_values('Count', ascending=False)\<close> is an insertion sort
  here; pandas does not fix the order of rows with equal counts, and nothing below
  depends on it. The column sum adds from left to right, starting from zero; numpy adds
  a long column in blocks, which gives the same sum whenever no partial sum is rounded
  (all of them are integers below \<open>2 ^ 53\<close>). The percentage of a row is computed in
  numpy arithmetic: the count over the total, times 100, rounded to one decimal,
  converted to a string, and \<open>%\<close> appended.
\<close>

fun valid_items :: "(string, pyval) dict \<Rightarrow> exn + (string \<times> float) list" where
  "valid_items [] = Inr []"
| "valid_items ((key, v) # rest) =
     (if v \<noteq> PNone then
        (let clean_key = clean_key_of key
         in case clean_value_of v of
              Inl e \<Rightarrow> Inl e
            | Inr clean_value \<Rightarrow>
                (case valid_items rest of
                   Inl e \<Rightarrow> Inl e
                 | Inr items \<Rightarrow> Inr ((clean_key, clean_value) # items)))
      else valid_items rest)"

fun insert_desc :: "string \<times> float \<Rightarrow> (string \<times> float) list \<Rightarrow> (string \<times> float) list" where
  "insert_desc r [] = [r]"
| "insert_desc r (s # ss) =
     (if fle (snd r) (snd s) \<and> snd r \<noteq> snd s then s # insert_desc r ss else r # s # ss)"

definition sort_desc :: "(string \<times> float) list \<Rightarrow> (string \<times> float) list" where
  "sort_desc items = foldr insert_desc items []"

definition column_sum :: "float list \<Rightarrow> npfloat" where
  "column_sum xs = foldl np_add (Finite (Float 0 0)) (map Finite xs)"

definition percentage :: "npfloat \<Rightarrow> float \<Rightarrow> string" where
  "percentage total_count c =
     (if np_positive total_count
      then np_str (np_round1 (np_mul (np_div (Finite c) total_count) (Finite (float_of_int 100))))
           @ ''%''
      else ''0%'')"

text \<open>
  What the page shows below the chart: the table (option, count, percentage), one of
  the two notes that there is no data, or, when the block that builds the table raised,
  the message \<open>Error displaying data table\<close> with the exception and no table.
\<close>

datatype table_view =
    DataTable "(string \<times> float \<times> string) list"
  | NoValidResponseData
  | NoResponseData
  | ErrorDisplayingDataTable exn

definition percentage_table :: "(string, pyval) dict \<Rightarrow> table_view" where
  "percentage_table filtered_data =
     (if filtered_data \<noteq> [] then
        (case valid_items filtered_data of
           Inl e \<Rightarrow> ErrorDisplayingDataTable e
         | Inr items \<Rightarrow>
             (if items \<noteq> [] then
                (let df = sort_desc items;
                     total_count = column_sum (map snd df)
                 in DataTable (map (\<lambda>(opt, c). (opt, c, percentage total_count c)) df))
              else NoValidResponseData))
      else NoResponseData)"

text \<open>
  \<open>create_layout\<close> from the selected question on: the chart type chosen in the select
  box becomes a key, the chart is built from the filtered data, and so is the table.
\<close>

definition show_question ::
  "((string, float) dict \<Rightarrow> string \<Rightarrow> string \<Rightarrow> exn + float figure) option
     \<Rightarrow> string \<Rightarrow> (string, int) dict \<Rightarrow> string
     \<Rightarrow> message list \<times> float figure \<times> table_view" where
  "show_question styled selected_question question_data chart_type =
     (let filtered_data = filter_question_data selected_question question_data;
          chart_type_key =
            (if chart_type = ''Bar Chart'' then ''bar''
             else if chart_type = ''Pie Chart'' then ''pie''
             else ''horizontal_bar'');
          chart = create_chart_unified styled (py_values filtered_data) chart_type_key
                    selected_question
      in (fst chart, snd chart, percentage_table (py_values filtered_data)))"

section \<open>Specialized page: the chart of a group\<close>

text \<open>
  \<open>create_standardized_chart\<close>. Nothing here catches an exception of the style module's
  chart function, so the result is a figure or the exception. The page shows this
  figure for each of its three groups and builds no table.
\<close>

definition title_mapping :: "string \<Rightarrow> string" where
  "title_mapping group_name =
     (if group_name = ''Q3''
      then ''Distribution Of Outputs Across The Clusters Of The Implementation Framework''
      else if group_name = ''Q4''
      then ''Distribution Of Outputs Across The Pillars Of The Call For Action On Youth Employment''
      else if group_name = ''Q5''
      then ''Distribution Of Outputs Across Target Youth Groups, When Applicable''
      else group_name @ '' Response Distribution'')"

definition create_standardized_chart ::
  "((string, nat) dict \<Rightarrow> string \<Rightarrow> string \<Rightarrow> exn + nat figure) option
     \<Rightarrow> (string, nat) dict \<Rightarrow> string \<Rightarrow> string \<Rightarrow> exn + nat figure" where
  "create_standardized_chart styled data_dict group_name chart_type =
     (if data_dict = [] \<or> list_all (\<lambda>v. v = 0) (map snd data_dict)
      then Inr (NoDataChart group_name)
      else
        (let chart_title = title_mapping group_name
         in case styled of
              Some create_chart \<Rightarrow> create_chart data_dict chart_type chart_title
            | None \<Rightarrow>
                (let categories = map fst data_dict;
                     vals = map snd data_dict
                 in if chart_type = ''pie''
                    then Inr (PieChart categories vals chart_title)
                    else Inr (BarChart categories vals chart_title))))"

definition group_chart ::
  "((string, nat) dict \<Rightarrow> string \<Rightarrow> string \<Rightarrow> exn + nat figure) option
     \<Rightarrow> dataframe \<Rightarrow> string list \<Rightarrow> string \<Rightarrow> exn + nat figure" where
  "group_chart styled data question_columns group_name =
     (let results = process_question_data data question_columns
      in create_standardized_chart styled results group_name (group_chart_type results))"

section \<open>Example inputs\<close>

text \<open>A row of a survey table with the columns \<open>question\<close>, \<open>option\<close> and \<open>count\<close>, a
  table of such rows, and readers that stand for a file that holds a given table and
  for a path at which there is no file.\<close>

definition survey_row :: "cell \<Rightarrow> cell \<Rightarrow> cell \<Rightarrow> string \<Rightarrow> cell" where
  "survey_row q opt c col =
     (if col = ''question'' then q else if col = ''option'' then opt
      else if col = ''count'' then c else NaN)"

definition survey_frame :: "(string \<Rightarrow> cell) list \<Rightarrow> dataframe" where
  "survey_frame rs = \<lparr>columns = [''question'', ''option'', ''count''], rows = rs\<rparr>"

definition file_with :: "dataframe \<Rightarrow> string \<Rightarrow> string option \<Rightarrow> exn + dataframe" where
  "file_with df file_path encoding = Inr df"

definition no_such_file :: "string \<Rightarrow> string option \<Rightarrow> exn + dataframe" where
  "no_such_file file_path encoding = Inl FileNotFoundError"

definition undecodable_file :: "string \<Rightarrow> string option \<Rightarrow> exn + dataframe" where
  "undecodable_file file_path encoding =
     (case encoding of Some enc \<Rightarrow> Inl UnicodeDecodeError | None \<Rightarrow> Inl OtherException)"

text \<open>A table of the specialized page with one flag column, and a row of it.\<close>

definition flag_row :: "string \<Rightarrow> cell \<Rightarrow> string \<Rightarrow> cell" where
  "flag_row name v col = (if col = name then v else NaN)"

definition ab_row :: "cell \<Rightarrow> cell \<Rightarrow> string \<Rightarrow> cell" where
  "ab_row a b col = (if col = ''A. '' then a else if col = ''B. '' then b else NaN)"

definition ab_frame :: dataframe where
  "ab_frame =
     \<lparr>columns = [''A. '', ''B. ''],
      rows = replicate 6 (ab_row (StrV ''YES'') (StrV ''NO''))
             @ replicate 4 (ab_row (StrV ''NO'') (StrV ''NO''))\<rparr>"

text \<open>A survey table whose second count is missing, so that pandas reads the column as
  floats: \<open>30.0\<close> is \<open>Float 15 1\<close>.\<close>

definition yes_no_frame :: dataframe where
  "yes_no_frame =
     survey_frame
       [survey_row (StrV ''Q1: X'') (StrV ''Yes'') (FloatV (Float 15 1)),
        survey_row (StrV ''Q1: X'') (StrV ''No'') NaN]"

section \<open>Lemmas on strings and dictionaries\<close>

lemma contains_iff: "contains sub s \<longleftrightarrow> (\<exists>ps ss. s = ps @ sub @ ss)"
proof (induction s)
  case Nil
  then show ?case by auto
next
  case (Cons c cs)
  have pre: "take (length sub) (c # cs) = sub \<longleftrightarrow> (\<exists>ss. c # cs = sub @ ss)"
    by (metis append_eq_conv_conj append_take_drop_id)
  show ?case
  proof
    assume "contains sub (c # cs)"
    then consider "take (length sub) (c # cs) = sub" | "contains sub cs" by auto
    then show "\<exists>ps ss. c # cs = ps @ sub @ ss"
    proof cases
      case 1
      then obtain ss where "c # cs = sub @ ss" using pre by blast
      then have "c # cs = [] @ sub @ ss" by simp
      then show ?thesis by blast
    next
      case 2
      then obtain ps ss where "cs = ps @ sub @ ss" using Cons.IH by blast
      then have "c # cs = (c # ps) @ sub @ ss" by simp
      then show ?thesis by blast
    qed
  next
    assume "\<exists>ps ss. c # cs = ps @ sub @ ss"
    then obtain ps ss where eq: "c # cs = ps @ sub @ ss" by blast
    show "contains sub (c # cs)"
    proof (cases ps)
      case Nil
      then have "c # cs = sub @ ss" using eq by simp
      then have "take (length sub) (c # cs) = sub" using pre by blast
      then show ?thesis by simp
    next
      case (Cons p ps')
      then have "cs = ps' @ sub @ ss" using eq by simp
      then show ?thesis using Cons.IH by auto
    qed
  qed
qed

lemma map_of_dict_set: "map_of (dict_set d k v) = (map_of d)(k \<mapsto> v)"
  by (induction d) (auto simp: fun_eq_iff)

lemma map_of_dict_del: "map_of (dict_del d k) = (map_of d)(k := None)"
  by (induction d) (auto simp: dict_del_def fun_eq_iff)

lemma keys_dict_del: "map fst (dict_del d k) = removeAll k (map fst d)"
  by (induction d) (auto simp: dict_del_def)

lemma dict_set_absent: "k \<notin> set (map fst d) \<Longrightarrow> dict_set d k v = d @ [(k, v)]"
  by (induction d) auto

lemma distinct_dict_del: "distinct (map fst d) \<Longrightarrow> distinct (map fst (dict_del d k))"
  by (simp add: keys_dict_del distinct_removeAll)


lemma filter_others_dict_del:
  "filter (\<lambda>p. fst p \<noteq> k \<and> Q p) (dict_del d k) = filter (\<lambda>p. fst p \<noteq> k \<and> Q p) d"
  by (induction d) (auto simp: dict_del_def)

lemma dict_del_commute: "dict_del (dict_del d a) b = dict_del (dict_del d b) a"
  by (induction d) (auto simp: dict_del_def)

lemma merge_other_unfold:
  assumes "contains ''Q4:'' question_key \<or> contains ''Q5:'' question_key"
      and "dict_get options_data ''Other'' 0 > 0
           \<or> dict_get options_data ''Other (elaborated answ)'' 0 > 0"
  shows "merge_other question_key options_data =
           dict_del (dict_del options_data ''Other'') ''Other (elaborated answ)''
           @ [(''Other'', dict_get options_data ''Other'' 0
                          + dict_get options_data ''Other (elaborated answ)'' 0)]"
proof -
  have "''Other'' \<notin> set (map fst (dict_del (dict_del options_data ''Other'')
                                     ''Other (elaborated answ)''))"
    by (simp add: keys_dict_del)
  then show ?thesis
    using assms by (simp add: merge_other_def Let_def dict_set_absent)
qed

lemma merge_other_unchanged:
  assumes "\<not> (dict_get options_data ''Other'' 0 > 0
              \<or> dict_get options_data ''Other (elaborated answ)'' 0 > 0)"
  shows "merge_other question_key options_data = options_data"
  using assms by (simp add: merge_other_def Let_def)

lemma merge_other_properties:
  assumes q: "contains ''Q4:'' question_key \<or> contains ''Q5:'' question_key"
      and pos: "dict_get options_data ''Other'' 0 > 0
                \<or> dict_get options_data ''Other (elaborated answ)'' 0 > 0"
  defines "merged \<equiv> merge_other question_key options_data"
  shows "length (filter (\<lambda>p. fst p = ''Other'') merged) = 1"
    and "map_of merged ''Other''
           = Some (dict_get options_data ''Other'' 0
                   + dict_get options_data ''Other (elaborated answ)'' 0)"
    and "\<not> dict_has merged ''Other (elaborated answ)''"
    and "filter (\<lambda>p. fst p \<noteq> ''Other'' \<and> fst p \<noteq> ''Other (elaborated answ)'') merged
           = filter (\<lambda>p. fst p \<noteq> ''Other'' \<and> fst p \<noteq> ''Other (elaborated answ)'') options_data"
proof -
  let ?d = "dict_del (dict_del options_data ''Other'') ''Other (elaborated answ)''"
  let ?v = "dict_get options_data ''Other'' 0 + dict_get options_data ''Other (elaborated answ)'' 0"
  have m: "merged = ?d @ [(''Other'', ?v)]"
    unfolding merged_def by (rule merge_other_unfold [OF q pos])
  have no_other: "filter (\<lambda>p. fst p = ''Other'') ?d = []"
    by (induction options_data) (auto simp: dict_del_def)
  show "length (filter (\<lambda>p. fst p = ''Other'') merged) = 1"
    by (simp add: m no_other)
  have "map_of ?d ''Other'' = None"
    by (simp add: map_of_dict_del)
  then show "map_of merged ''Other'' = Some ?v"
    by (simp add: m map_add_def)
  show "\<not> dict_has merged ''Other (elaborated answ)''"
    by (simp add: m dict_has_def keys_dict_del)
  have "filter (\<lambda>p. fst p \<noteq> ''Other'' \<and> fst p \<noteq> ''Other (elaborated answ)'') ?d
          = filter (\<lambda>p. fst p \<noteq> ''Other'' \<and> fst p \<noteq> ''Other (elaborated answ)'') options_data"
    unfolding dict_del_def filter_filter by (rule filter_cong) auto
  then show "filter (\<lambda>p. fst p \<noteq> ''Other'' \<and> fst p \<noteq> ''Other (elaborated answ)'') merged
          = filter (\<lambda>p. fst p \<noteq> ''Other'' \<and> fst p \<noteq> ''Other (elaborated answ)'') options_data"
    by (simp add: m)
qed

section \<open>The Other-merge (C1)\<close>

text \<open>
  C1. Take any question of \<open>questions_data\<close> whose label contains \<open>Q4:\<close> or \<open>Q5:\<close>, with
  option dictionary \<open>options_data\<close>, and let the two counts be those stored under
  \<open>Other\<close> and \<open>Other (elaborated answ)\<close> (0 for an absent key). After
  \<open>_merge_other_options\<close> the question is still at its place. If one of the two counts
  is positive, its dictionary has exactly one entry with key \<open>Other\<close>, the value of that
  key is the sum of the two counts, the key \<open>Other (elaborated answ)\<close> is gone, and the
  entries under all other keys are the same, in the same order. If neither count is
  positive (both absent or zero in particular) the dictionary is unchanged.
\<close>

theorem merge_other_options_merges:
  assumes "i < length questions_data"
      and "questions_data ! i = (question_key, options_data)"
      and "contains ''Q4:'' question_key \<or> contains ''Q5:'' question_key"
  shows "\<exists>merged. merge_other_options questions_data ! i = (question_key, merged) \<and>
           (if dict_get options_data ''Other'' 0 > 0
               \<or> dict_get options_data ''Other (elaborated answ)'' 0 > 0
            then length (filter (\<lambda>p. fst p = ''Other'') merged) = 1
               \<and> map_of merged ''Other''
                   = Some (dict_get options_data ''Other'' 0
                           + dict_get options_data ''Other (elaborated answ)'' 0)
               \<and> \<not> dict_has merged ''Other (elaborated answ)''
               \<and> filter (\<lambda>p. fst p \<noteq> ''Other'' \<and> fst p \<noteq> ''Other (elaborated answ)'') merged
                   = filter (\<lambda>p. fst p \<noteq> ''Other'' \<and> fst p \<noteq> ''Other (elaborated answ)'')
                       options_data
            else merged = options_data)"
proof -
  have at: "merge_other_options questions_data ! i
              = (question_key, merge_other question_key options_data)"
    using assms(1,2) by (simp add: merge_other_options_def)
  show ?thesis
  proof (cases "dict_get options_data ''Other'' 0 > 0
                \<or> dict_get options_data ''Other (elaborated answ)'' 0 > 0")
    case True
    then show ?thesis
      using at merge_other_properties [OF assms(3) True] by simp
  next
    case False
    then show ?thesis
      using at merge_other_unchanged [OF False] by simp
  qed
qed

theorem merge_other_options_merges_witness:
  "merge_other_options
     [(''Q1: Region'', [(''Other'', 4)]),
      (''Q4: Policy areas'', [(''Other'', 2), (''Skills'', 9), (''Other (elaborated answ)'', 5)])]
     ! 1
   = (''Q4: Policy areas'', [(''Skills'', 9), (''Other'', 7)])"
  using merge_other_options_merges
    [of 1 "[(''Q1: Region'', [(''Other'', 4)]),
            (''Q4: Policy areas'',
             [(''Other'', 2), (''Skills'', 9), (''Other (elaborated answ)'', 5)])]"
        "''Q4: Policy areas''"
        "[(''Other'', 2), (''Skills'', 9), (''Other (elaborated answ)'', 5)]"]
  by (simp add: merge_other_options_def merge_other_def dict_get_def dict_del_def)

section \<open>Chart selection on the two pages (C2)\<close>

lemma max_label_length_gt:
  assumes "data \<noteq> []"
  shows "Max (set (map (\<lambda>label. length label) (map fst data))) > n
           \<longleftrightarrow> (\<exists>label \<in> set (map fst data). length label > n)"
proof -
  have "finite (set (map (\<lambda>label. length label) (map fst data)))"
    and "set (map (\<lambda>label. length label) (map fst data)) \<noteq> {}"
    using assms by auto
  then have "Max (set (map (\<lambda>label. length label) (map fst data))) > n
           \<longleftrightarrow> (\<exists>a \<in> set (map (\<lambda>label. length label) (map fst data)). a > n)"
    by (rule Max_gr_iff)
  then show ?thesis by auto
qed

text \<open>
  C2. For a non-empty option dictionary, the selector of the general page answers
  \<open>pie\<close> for at most 5 options, else \<open>horizontal_bar\<close> when some label is longer than 20
  characters or there are more than 10 options, else \<open>bar\<close>. The specialized page
  answers \<open>bar\<close> from 5 options on and \<open>pie\<close> below, whatever the labels are: two
  dictionaries with the same number of options get the same answer. With exactly 5
  options the general page answers \<open>pie\<close> and the specialized page \<open>bar\<close>.
\<close>

theorem chart_selection:
  assumes "data \<noteq> []"
  shows "auto_select_chart_type data =
           (if length data \<le> 5 then ''pie''
            else if (\<exists>label \<in> set (map fst data). length label > 20) \<or> length data > 10
            then ''horizontal_bar''
            else ''bar'')
         \<and> group_chart_type data = (if length data \<ge> 5 then ''bar'' else ''pie'')
         \<and> (\<forall>relabelled :: (string, 'a) dict.
               length relabelled = length data
               \<longrightarrow> group_chart_type relabelled = group_chart_type data)
         \<and> (length data = 5
               \<longrightarrow> auto_select_chart_type data = ''pie'' \<and> group_chart_type data = ''bar'')"
  using assms max_label_length_gt [OF assms, of 20]
  by (simp add: auto_select_chart_type_def group_chart_type_def Let_def)

theorem chart_selection_witness:
  "auto_select_chart_type
     [(''A'', 1::int), (''B'', 2), (''C'', 3), (''D'', 4), (''E'', 5)] = ''pie''
   \<and> group_chart_type
     [(''A'', 1::int), (''B'', 2), (''C'', 3), (''D'', 4), (''E'', 5)] = ''bar''"
proof -
  have "[(''A'', 1::int), (''B'', 2), (''C'', 3), (''D'', 4), (''E'', 5)] \<noteq> []"
    by simp
  from chart_selection [OF this] show ?thesis
    by (simp (no_asm_use)) blast
qed

section \<open>The CSV loader (C3)\<close>

lemma try_encodings_find:
  "try_encodings read_csv file_path encs
     = find (\<lambda>r. r \<noteq> Inl UnicodeDecodeError)
         (map (\<lambda>encoding. read_csv file_path (Some encoding)) encs)"
  by (induction encs) (auto split: sum.splits)

text \<open>
  C3, as stated, fails: at a path where there is no file, the first call of
  \<open>read_csv\<close> raises \<open>FileNotFoundError\<close>; the loop over the encodings catches
  \<open>UnicodeDecodeError\<close> only, so the exception leaves \<open>safe_read_csv\<close>, and no message
  is shown.
\<close>

theorem safe_read_csv_missing_file_raises:
  "safe_read_csv no_such_file ''orignaldata/missing.csv'' = ([], Inl FileNotFoundError)"
  by (simp add: safe_read_csv_def encodings_def no_such_file_def)

text \<open>
  C3, amended. The encodings are tried in order, and the first attempt that does not
  fail with a decode error decides: its table is returned, or its exception leaves the
  function (so a missing or unreadable file propagates to the caller). Only when all
  four attempts fail with a decode error is the file parsed once more without an
  encoding; then a table is returned, or on any exception the failure is reported to
  the user and the empty table is returned. Hence an exception leaves the function
  only from an attempt with an encoding, is never a decode error, and comes with no
  message; and when every attempt with an encoding fails to decode, nothing is raised.
\<close>

theorem safe_read_csv_outcome:
  "safe_read_csv read_csv file_path =
     (case find (\<lambda>r. r \<noteq> Inl UnicodeDecodeError)
             (map (\<lambda>encoding. read_csv file_path (Some encoding)) encodings) of
        Some result \<Rightarrow> ([], result)
      | None \<Rightarrow>
          (case read_csv file_path None of
             Inr df \<Rightarrow> ([], Inr df)
           | Inl e \<Rightarrow> ([FailedToRead file_path e], Inr empty_dataframe)))
   \<and> (\<forall>e. snd (safe_read_csv read_csv file_path) = Inl e \<longrightarrow>
          e \<noteq> UnicodeDecodeError
          \<and> (\<exists>encoding \<in> set encodings. read_csv file_path (Some encoding) = Inl e)
          \<and> fst (safe_read_csv read_csv file_path) = [])
   \<and> ((\<forall>encoding \<in> set encodings. read_csv file_path (Some encoding) = Inl UnicodeDecodeError)
        \<longrightarrow> (\<exists>df. snd (safe_read_csv read_csv file_path) = Inr df))"
proof (intro conjI allI impI)
  show eq: "safe_read_csv read_csv file_path =
     (case find (\<lambda>r. r \<noteq> Inl UnicodeDecodeError)
             (map (\<lambda>encoding. read_csv file_path (Some encoding)) encodings) of
        Some result \<Rightarrow> ([], result)
      | None \<Rightarrow>
          (case read_csv file_path None of
             Inr df \<Rightarrow> ([], Inr df)
           | Inl e \<Rightarrow> ([FailedToRead file_path e], Inr empty_dataframe)))"
    by (simp add: safe_read_csv_def try_encodings_find)
  {
    fix e
    assume raised: "snd (safe_read_csv read_csv file_path) = Inl e"
    then obtain r where
      found: "find (\<lambda>r. r \<noteq> Inl UnicodeDecodeError)
                (map (\<lambda>encoding. read_csv file_path (Some encoding)) encodings) = Some r"
      unfolding eq by (auto split: option.splits sum.splits)
    with raised have r: "r = Inl e" and msgs: "fst (safe_read_csv read_csv file_path) = []"
      unfolding eq by simp_all
    from found have "r \<noteq> Inl UnicodeDecodeError"
      and "r \<in> set (map (\<lambda>encoding. read_csv file_path (Some encoding)) encodings)"
      by (auto simp: find_Some_iff)
    with r show "e \<noteq> UnicodeDecodeError"
      and "\<exists>encoding \<in> set encodings. read_csv file_path (Some encoding) = Inl e"
      by auto
    from msgs show "fst (safe_read_csv read_csv file_path) = []" .
  }
  {
    assume "\<forall>encoding \<in> set encodings. read_csv file_path (Some encoding) = Inl UnicodeDecodeError"
    then have "find (\<lambda>r. r \<noteq> Inl UnicodeDecodeError)
                (map (\<lambda>encoding. read_csv file_path (Some encoding)) encodings) = None"
      by (simp add: find_None_iff)
    then show "\<exists>df. snd (safe_read_csv read_csv file_path) = Inr df"
      unfolding eq by (simp split: sum.splits)
  }
qed

theorem safe_read_csv_outcome_witness:
  "safe_read_csv undecodable_file ''orignaldata/PART1_base_dataQ2-5.csv''
     = ([FailedToRead ''orignaldata/PART1_base_dataQ2-5.csv'' OtherException],
        Inr empty_dataframe)"
  using safe_read_csv_outcome [of undecodable_file "''orignaldata/PART1_base_dataQ2-5.csv''"]
  by (simp add: encodings_def undecodable_file_def)

section \<open>The column-flag aggregator (C5)\<close>

lemma dict_has_dict_set: "dict_has (dict_set d k v) k' \<longleftrightarrow> k' = k \<or> dict_has d k'"
  by (induction d) (auto simp: dict_has_def)

lemma distinct_dict_set:
  "distinct (map fst d) \<Longrightarrow> distinct (map fst (dict_set d k v))"
proof (induction d)
  case Nil
  then show ?case by simp
next
  case (Cons p d)
  have "fst ` set (dict_set d k v) = insert k (fst ` set d)"
    using dict_has_dict_set [of d k v] by (auto simp: dict_has_def)
  with Cons show ?case by auto
qed

lemma process_columns_keys:
  "dict_has (process_columns data cols results) label \<longleftrightarrow>
     dict_has results label
     \<or> (\<exists>col \<in> set cols. col \<in> set (columns data) \<and> yes_count data col > 0
                         \<and> clean_name col = label)"
  by (induction cols arbitrary: results) (auto simp: dict_has_dict_set)

lemma process_columns_distinct:
  "distinct (map fst results) \<Longrightarrow> distinct (map fst (process_columns data cols results))"
  by (induction cols arbitrary: results) (auto simp: distinct_dict_set)

lemma process_columns_keeps:
  "\<forall>col \<in> set cols. clean_name col \<noteq> label
     \<Longrightarrow> map_of (process_columns data cols results) label = map_of results label"
  by (induction cols arbitrary: results) (auto simp: map_of_dict_set)

lemma process_columns_value:
  assumes "col \<in> set cols" and "col \<in> set (columns data)" and "yes_count data col > 0"
      and "inj_on clean_name (set cols)" and "distinct cols"
  shows "map_of (process_columns data cols results) (clean_name col) = Some (yes_count data col)"
  using assms
proof (induction cols arbitrary: results)
  case Nil
  then show ?case by simp
next
  case (Cons c cols)
  show ?case
  proof (cases "c = col")
    case True
    have "\<forall>c' \<in> set cols. clean_name c' \<noteq> clean_name col"
      using Cons.prems(4,5) True by (auto simp: inj_on_def)
    then show ?thesis
      using True Cons.prems(2,3) by (simp add: process_columns_keeps map_of_dict_set)
  next
    case False
    then have "col \<in> set cols" using Cons.prems(1) by simp
    moreover have "inj_on clean_name (set cols)" and "distinct cols"
      using Cons.prems(4,5) by (auto simp: inj_on_def)
    ultimately show ?thesis
      using Cons.IH Cons.prems(2,3) by simp
  qed
qed

lemma rstrip_chars_form:
  "\<exists>n. s = rstrip_chars [c] s @ replicate n c"
proof -
  let ?t = "takeWhile (\<lambda>x. x \<in> set [c]) (rev s)"
  let ?d = "dropWhile (\<lambda>x. x \<in> set [c]) (rev s)"
  have "\<forall>y \<in> set ?t. y = c"
    using set_takeWhileD [of _ "\<lambda>x. x \<in> set [c]" "rev s"] by auto
  then have t: "replicate (length ?t) c = ?t"
    by (rule replicate_length_same)
  have "rev (rev s) = rev (?t @ ?d)"
    by (simp only: takeWhile_dropWhile_id)
  then have "s = rev ?d @ rev ?t"
    by (simp only: rev_rev_ident rev_append)
  also have "rev ?t = replicate (length ?t) c"
    by (subst t [symmetric]) (simp only: rev_replicate)
  finally have "s = rstrip_chars [c] s @ replicate (length ?t) c"
    by (simp only: rstrip_chars_def)
  then show ?thesis ..
qed

lemma rstrip_chars_last:
  assumes "rstrip_chars [c] s \<noteq> []"
  shows "last (rstrip_chars [c] s) \<noteq> c"
proof -
  let ?d = "dropWhile (\<lambda>x. x \<in> set [c]) (rev s)"
  have ne: "?d \<noteq> []"
    using assms by (simp only: rstrip_chars_def rev_is_Nil_conv not_False_eq_True)
  then have "\<not> (hd ?d \<in> set [c])"
    by (rule hd_dropWhile)
  moreover have "last (rev ?d) = hd ?d"
    using ne by (simp only: last_rev)
  ultimately show ?thesis
    by (simp add: rstrip_chars_def)
qed

text \<open>
  C5, as stated, fails: \<open>rstrip('.')\<close> removes every trailing period, not exactly one. The
  column \<open>A.. \<close> with one \<open>YES\<close> row yields the label \<open>A\<close>, where one period removed
  would leave \<open>A.\<close>.
\<close>

theorem process_question_data_strips_all_periods:
  "process_question_data
     \<lparr>columns = [''A.. ''], rows = [flag_row ''A.. '' (StrV ''YES'')]\<rparr> [''A.. '']
   = [(''A'', 1)]"
  by (simp add: process_question_data_def yes_count_def flag_row_def clean_name_def
      strip_def rstrip_chars_def is_space_def)

text \<open>
  C5, amended. For every table and every list of known column names: the result has an
  entry for a label exactly when some known column that is present in the table and
  has at least one row whose cell is the string \<open>YES\<close> is cleaned to that label (so an
  absent column and a count of 0 yield no entry), and no label occurs twice. The label
  of a column is its name with the surrounding white space trimmed and then all
  trailing periods removed: what is removed is a run of periods, and the label does
  not end with a period. When the known columns are distinct and have distinct labels,
  the value under the label of such a column is its number of \<open>YES\<close> rows.
\<close>

theorem process_question_data_entries:
  "(dict_has (process_question_data data question_columns) label \<longleftrightarrow>
      (\<exists>col \<in> set question_columns.
          col \<in> set (columns data) \<and> yes_count data col > 0 \<and> clean_name col = label))
   \<and> distinct (map fst (process_question_data data question_columns))
   \<and> (\<exists>n. strip col = clean_name col @ replicate n CHR ''.'')
   \<and> (clean_name col = [] \<or> last (clean_name col) \<noteq> CHR ''.'')
   \<and> (distinct question_columns \<and> inj_on clean_name (set question_columns)
        \<and> col \<in> set question_columns \<and> col \<in> set (columns data) \<and> yes_count data col > 0
      \<longrightarrow> map_of (process_question_data data question_columns) (clean_name col)
            = Some (yes_count data col))"
proof (intro conjI impI)
  show "dict_has (process_question_data data question_columns) label \<longleftrightarrow>
      (\<exists>col \<in> set question_columns.
          col \<in> set (columns data) \<and> yes_count data col > 0 \<and> clean_name col = label)"
    using process_columns_keys [of data question_columns "[]" label]
    by (simp add: process_question_data_def dict_has_def)
  show "distinct (map fst (process_question_data data question_columns))"
    by (simp add: process_question_data_def process_columns_distinct)
  show "\<exists>n. strip col = clean_name col @ replicate n CHR ''.''"
    unfolding clean_name_def by (rule rstrip_chars_form)
  show "clean_name col = [] \<or> last (clean_name col) \<noteq> CHR ''.''"
    unfolding clean_name_def using rstrip_chars_last by blast
next
  assume "distinct question_columns \<and> inj_on clean_name (set question_columns)
        \<and> col \<in> set question_columns \<and> col \<in> set (columns data) \<and> yes_count data col > 0"
  then show "map_of (process_question_data data question_columns) (clean_name col)
            = Some (yes_count data col)"
    by (simp add: process_question_data_def process_columns_value)
qed

theorem process_question_data_entries_witness:
  "process_question_data ab_frame [''A. '', ''B. ''] = [(''A'', 6)]
   \<and> map_of (process_question_data ab_frame [''A. '', ''B. '']) (clean_name ''A. '') = Some 6
   \<and> \<not> dict_has (process_question_data ab_frame [''A. '', ''B. '']) ''B''"
proof -
  have cn: "clean_name ''A. '' = ''A''"
    by (simp add: clean_name_def strip_def rstrip_chars_def is_space_def)
  have a: "yes_count ab_frame ''A. '' = 6" and b: "yes_count ab_frame ''B. '' = 0"
    by (simp_all add: yes_count_def ab_frame_def ab_row_def)
  have ev: "process_question_data ab_frame [''A. '', ''B. ''] = [(''A'', 6)]"
    by (simp add: process_question_data_def a b cn) (simp add: ab_frame_def)
  show ?thesis
    using process_question_data_entries [of ab_frame "[''A. '', ''B. '']" "''B''" "''A. ''"]
    by (simp add: ev cn dict_has_def)
qed

section \<open>The aggregator of the general page (C4)\<close>

text \<open>The count stored for an option of a question, if any.\<close>

lemma map_of_dict_get: "dict_get d k dflt = (case map_of d k of Some v \<Rightarrow> v | None \<Rightarrow> dflt)"
  by (simp add: dict_get_def)

lemma dict_has_map_of: "dict_has d k \<longleftrightarrow> map_of d k \<noteq> None"
  by (simp add: dict_has_def map_of_eq_None_iff)

lemma map_of_add_entry:
  "map_of (add_entry questions_data question opt c) q =
     (if q = question
      then Some (dict_set (case map_of questions_data question of Some d \<Rightarrow> d | None \<Rightarrow> [])
                   opt c)
      else map_of questions_data q)"
  by (auto simp: add_entry_def Let_def map_of_dict_set dict_get_def dict_has_map_of
      split: option.splits)

lemma stored_count_add_entry:
  "stored_count (add_entry questions_data question opt c) q o' =
     (if q = question \<and> o' = opt then Some c else stored_count questions_data q o')"
  by (auto simp: stored_count_def map_of_add_entry map_of_dict_set split: option.splits)

lemma find_append_case:
  "find P (xs @ ys) = (case find P xs of None \<Rightarrow> find P ys | Some x \<Rightarrow> Some x)"
  by (induction xs) auto

lemma last_row_count_Cons:
  assumes "row_count row = Inr n"
  shows "last_row_count (row # rest) q o' =
           (case find (\<lambda>row. row_question row = q \<and> row_option row = o') (rev rest) of
              Some r \<Rightarrow> last_row_count rest q o'
            | None \<Rightarrow> (if row_question row = q \<and> row_option row = o' then Some n else None))"
  using assms by (simp add: last_row_count_def find_append_case split: option.splits)

lemma load_rows_converted:
  assumes "\<forall>row \<in> set table_rows. \<exists>n. row_count row = Inr n"
  shows "\<exists>result. load_rows table_rows questions_data = Inr result \<and>
           (\<forall>q o'. stored_count result q o' =
              (case find (\<lambda>row. row_question row = q \<and> row_option row = o') (rev table_rows) of
                 Some r \<Rightarrow> last_row_count table_rows q o'
               | None \<Rightarrow> stored_count questions_data q o'))"
  using assms
proof (induction table_rows arbitrary: questions_data)
  case Nil
  then show ?case by simp
next
  case (Cons row rest)
  from Cons.prems obtain n where n: "row_count row = Inr n" by auto
  let ?next = "add_entry questions_data (row_question row) (row_option row) n"
  from Cons.prems have "\<forall>row \<in> set rest. \<exists>n. row_count row = Inr n" by simp
  from Cons.IH [OF this, of ?next] obtain result where
    res: "load_rows rest ?next = Inr result"
    and look: "\<And>q o'. stored_count result q o' =
              (case find (\<lambda>row. row_question row = q \<and> row_option row = o') (rev rest) of
                 Some r \<Rightarrow> last_row_count rest q o'
               | None \<Rightarrow> stored_count ?next q o')"
    by blast
  have "load_rows (row # rest) questions_data = Inr result"
    using n res by simp
  moreover have "stored_count result q o' =
              (case find (\<lambda>row. row_question row = q \<and> row_option row = o') (rev (row # rest)) of
                 Some r \<Rightarrow> last_row_count (row # rest) q o'
               | None \<Rightarrow> stored_count questions_data q o')"
    for q o'
  proof (cases "find (\<lambda>row. row_question row = q \<and> row_option row = o') (rev rest)")
    case None
    then show ?thesis
      using look [of q o'] last_row_count_Cons [OF n, of rest q o']
      by (auto simp: find_append_case stored_count_add_entry)
  next
    case (Some r)
    then show ?thesis
      using look [of q o'] last_row_count_Cons [OF n, of rest q o']
      by (simp add: find_append_case)
  qed
  ultimately show ?case by blast
qed

lemma load_rows_all:
  assumes "\<forall>row \<in> set table_rows. \<exists>n. row_count row = Inr n"
  shows "\<exists>result. load_rows table_rows [] = Inr result \<and>
           (\<forall>q o'. stored_count result q o' = last_row_count table_rows q o')"
proof -
  from load_rows_converted [OF assms, of "[]"] obtain result where
    res: "load_rows table_rows [] = Inr result"
    and look: "\<And>q o'. stored_count result q o' =
              (case find (\<lambda>row. row_question row = q \<and> row_option row = o') (rev table_rows) of
                 Some r \<Rightarrow> last_row_count table_rows q o'
               | None \<Rightarrow> stored_count [] q o')"
    by blast
  have "stored_count result q o' = last_row_count table_rows q o'" for q o'
    unfolding look [of q o']
    by (simp add: stored_count_def last_row_count_def split: option.splits)
  with res show ?thesis by blast
qed

lemma load_rows_failed:
  assumes "row \<in> set table_rows" and "row_count row = Inl e"
  shows "\<exists>e'. load_rows table_rows questions_data = Inl e'"
  using assms
  by (induction table_rows arbitrary: questions_data) (auto split: sum.splits)

text \<open>
  C4, as stated, fails for a count that is not numeric: \<open>int('abc')\<close> raises
  \<open>ValueError\<close>, the handler of \<open>load_data\<close> reports it, and \<open>questions_data\<close> is left
  empty, so the well-formed row of the same table is lost as well.
\<close>

theorem load_data_non_numeric_count_is_fatal:
  "load_data
     (file_with (survey_frame
        [survey_row (StrV ''Q1: X'') (StrV ''Yes'') (StrV ''30''),
         survey_row (StrV ''Q1: X'') (StrV ''No'') (StrV ''abc'')]))
     ''orignaldata/PART1_base_dataQ2-5.csv'' ''All''
   = ([ErrorLoadingData ValueError], [])"
  by (simp add: load_data_def safe_read_csv_def encodings_def file_with_def survey_frame_def
      year_filter_def row_count_def row_question_def row_option_def survey_row_def notna_def
      py_int_def py_str_def int_of_string_def int_numeral_def strip_def is_space_def
      is_digit_def digit_value_def add_entry_def dict_has_def dict_get_def)

text \<open>
  C4, amended. Let the table that \<open>load_data\<close> reads (after the year filter) contain the
  three required columns. A missing count is coerced to 0. If every count of the table
  is missing or accepted by \<open>int\<close>, the aggregate before the Other-merge holds, for
  every question and option, the coerced count of the last row with that pair, and no
  entry where no row has the pair; so no row is lost. If \<open>int\<close> rejects the count of
  some row (a string that is not a numeral, for one), the load fails as a whole: the
  error is reported and the aggregated output is empty.
\<close>

theorem load_data_counts:
  assumes "safe_read_csv read_csv csv_file_path = (msgs, Inr df0)"
      and "df = year_filter selected_year df0"
      and "''question'' \<in> set (columns df)" and "''option'' \<in> set (columns df)"
      and "''count'' \<in> set (columns df)"
  shows "(\<forall>row. row ''count'' = NaN \<longrightarrow> row_count row = Inr 0)
       \<and> (\<forall>row s. row ''count'' = StrV s \<and> int_of_string s = None
             \<longrightarrow> row_count row = Inl ValueError)
       \<and> ((\<forall>row \<in> set (rows df). \<exists>n. row_count row = Inr n) \<longrightarrow>
            (\<exists>aggregate.
               snd (load_data read_csv csv_file_path selected_year)
                 = merge_other_options aggregate
               \<and> (\<forall>q opt. stored_count aggregate q opt = last_row_count (rows df) q opt)))
       \<and> ((\<exists>row \<in> set (rows df). \<exists>e. row_count row = Inl e) \<longrightarrow>
            snd (load_data read_csv csv_file_path selected_year) = []
            \<and> (\<exists>e. fst (load_data read_csv csv_file_path selected_year)
                       = msgs @ [ErrorLoadingData e]))"
proof (intro conjI allI impI)
  fix row :: "string \<Rightarrow> cell"
  assume "row ''count'' = NaN"
  then show "row_count row = Inr 0"
    by (simp add: row_count_def notna_def)
next
  fix row :: "string \<Rightarrow> cell" and s
  assume "row ''count'' = StrV s \<and> int_of_string s = None"
  then show "row_count row = Inl ValueError"
    by (simp add: row_count_def notna_def py_int_def)
next
  assume "\<forall>row \<in> set (rows df). \<exists>n. row_count row = Inr n"
  from load_rows_all [OF this] obtain result where
    res: "load_rows (rows df) [] = Inr result"
    and look: "\<forall>q o'. stored_count result q o' = last_row_count (rows df) q o'"
    by blast
  have "snd (load_data read_csv csv_file_path selected_year) = merge_other_options result"
    using assms res by (simp add: load_data_def Let_def merge_other_options_def)
  with look show "\<exists>aggregate.
               snd (load_data read_csv csv_file_path selected_year)
                 = merge_other_options aggregate
               \<and> (\<forall>q opt. stored_count aggregate q opt = last_row_count (rows df) q opt)"
    by blast
next
  assume "\<exists>row \<in> set (rows df). \<exists>e. row_count row = Inl e"
  then obtain e' where failed: "load_rows (rows df) [] = Inl e'"
    using load_rows_failed by blast
  show "snd (load_data read_csv csv_file_path selected_year) = []"
    using assms failed by (simp add: load_data_def Let_def)
  show "\<exists>e. fst (load_data read_csv csv_file_path selected_year) = msgs @ [ErrorLoadingData e]"
    using assms failed by (simp add: load_data_def Let_def)
qed

theorem load_data_counts_witness:
  "\<exists>aggregate.
     snd (load_data (file_with yes_no_frame) ''orignaldata/PART1_base_dataQ2-5.csv'' ''All'')
       = merge_other_options aggregate
     \<and> stored_count aggregate ''Q1: X'' ''Yes'' = Some 30
     \<and> stored_count aggregate ''Q1: X'' ''No'' = Some 0"
proof -
  let ?path = "''orignaldata/PART1_base_dataQ2-5.csv''"
  have r: "safe_read_csv (file_with yes_no_frame) ?path = ([], Inr yes_no_frame)"
    by (simp add: safe_read_csv_def encodings_def file_with_def)
  have y: "yes_no_frame = year_filter ''All'' yes_no_frame"
    by (simp add: year_filter_def)
  have c: "''question'' \<in> set (columns yes_no_frame)" "''option'' \<in> set (columns yes_no_frame)"
    "''count'' \<in> set (columns yes_no_frame)"
    by (simp_all add: yes_no_frame_def survey_frame_def)
  have conv: "\<forall>row \<in> set (rows yes_no_frame). \<exists>n. row_count row = Inr n"
    by (simp add: yes_no_frame_def survey_frame_def survey_row_def row_count_def notna_def
        py_int_def)
  have yes: "last_row_count (rows yes_no_frame) ''Q1: X'' ''Yes'' = Some 30"
    and no: "last_row_count (rows yes_no_frame) ''Q1: X'' ''No'' = Some 0"
    by (simp_all add: last_row_count_def yes_no_frame_def survey_frame_def survey_row_def
        row_question_def row_option_def row_count_def notna_def py_int_def py_str_def
        strip_def is_space_def float_trunc_def)
  from load_data_counts [OF r y c] conv obtain aggregate where
    "snd (load_data (file_with yes_no_frame) ?path ''All'') = merge_other_options aggregate"
    and "\<forall>q opt. stored_count aggregate q opt = last_row_count (rows yes_no_frame) q opt"
    by blast
  with yes no show ?thesis by auto
qed

section \<open>Title formatting (C9)\<close>

lemma split_on_not_Nil: "split_on c s \<noteq> []"
  by (induction s) (auto split: list.splits)

lemma join_Cons: "ws \<noteq> [] \<Longrightarrow> join sep (w # ws) = w @ sep @ join sep ws"
  by (cases ws) auto

lemma join_split_on: "join [c] (split_on c s) = s"
proof (induction s)
  case Nil
  then show ?case by simp
next
  case (Cons x s)
  show ?case
  proof (cases "x = c")
    case True
    then show ?thesis
      using Cons.IH by (simp add: join_Cons split_on_not_Nil)
  next
    case False
    obtain w ws where ws: "split_on c s = w # ws"
      using split_on_not_Nil [of c s] by (cases "split_on c s") auto
    show ?thesis
    proof (cases ws)
      case Nil
      then show ?thesis using False ws Cons.IH by simp
    next
      case (Cons v vs)
      then show ?thesis using False ws Cons.IH by simp
    qed
  qed
qed

lemma join_append:
  "xs \<noteq> [] \<Longrightarrow> ys \<noteq> [] \<Longrightarrow> join sep (xs @ ys) = join sep xs @ sep @ join sep ys"
proof (induction xs)
  case Nil
  then show ?case by simp
next
  case (Cons x xs)
  show ?case
  proof (cases xs)
    case Nil
    then show ?thesis using Cons.prems by (simp add: join_Cons)
  next
    case (Cons x' xs')
    then show ?thesis using Cons.IH Cons.prems by simp
  qed
qed

lemma split_on_append_sep: "split_on c (a @ c # b) = split_on c a @ split_on c b"
proof (induction a)
  case Nil
  then show ?case by simp
next
  case (Cons x a)
  obtain w ws where "split_on c a = w # ws"
    using split_on_not_Nil [of c a] by (cases "split_on c a") auto
  then show ?case using Cons.IH by simp
qed

lemma split_on_no_sep: "c \<notin> set w \<Longrightarrow> split_on c w = [w]"
  by (induction w) auto

lemma split_on_words: "w \<in> set (split_on c s) \<Longrightarrow> c \<notin> set w"
proof (induction s arbitrary: w)
  case Nil
  then show ?case by simp
next
  case (Cons x s)
  obtain v vs where vs: "split_on c s = v # vs"
    using split_on_not_Nil [of c s] by (cases "split_on c s") auto
  show ?case
  proof (cases "x = c")
    case True
    then show ?thesis using Cons by auto
  next
    case False
    then have "w = x # v \<or> w \<in> set vs" using Cons.prems vs by simp
    then show ?thesis
      using False Cons.IH [of v] Cons.IH [of w] vs by auto
  qed
qed

lemma split_first_parts:
  assumes "c \<in> set s"
  shows "s = fst (split_first c s) @ [c] @ snd (split_first c s)"
    and "c \<notin> set (fst (split_first c s))"
proof -
  have ne: "dropWhile (\<lambda>x. x \<noteq> c) s \<noteq> []"
    using assms by (simp add: dropWhile_eq_Nil_conv)
  then have "hd (dropWhile (\<lambda>x. x \<noteq> c) s) = c"
    using hd_dropWhile [of "\<lambda>x. x \<noteq> c" s] by simp
  with ne have "dropWhile (\<lambda>x. x \<noteq> c) s = c # tl (dropWhile (\<lambda>x. x \<noteq> c) s)"
    by (cases "dropWhile (\<lambda>x. x \<noteq> c) s") auto
  then have "takeWhile (\<lambda>x. x \<noteq> c) s @ c # tl (dropWhile (\<lambda>x. x \<noteq> c) s) = s"
    using takeWhile_dropWhile_id [of "\<lambda>x. x \<noteq> c" s] by simp
  then show "s = fst (split_first c s) @ [c] @ snd (split_first c s)"
    by (simp add: split_first_def)
  show "c \<notin> set (fst (split_first c s))"
    using set_takeWhileD [of c "\<lambda>x. x \<noteq> c" s] by (auto simp: split_first_def)
qed

lemma marker_has_colon:
  assumes "contains ''Q2:'' title \<or> contains ''Q3:'' title"
  shows "CHR '':'' \<in> set title"
proof -
  from assms obtain ps ss where "title = ps @ ''Q2:'' @ ss \<or> title = ps @ ''Q3:'' @ ss"
    unfolding contains_iff by blast
  then show ?thesis by auto
qed

text \<open>The lines that \<open>wrap_words\<close> produces: none is empty, and a line longer than the
  limit is one word of the input.\<close>

lemma wrap_words_lines:
  assumes "\<forall>l \<in> set lines. l \<noteq> [] \<and> (length l \<le> max_length \<or> l \<in> W)"
      and "length current_line \<le> max_length \<or> current_line \<in> W"
      and "set ws \<subseteq> W"
  shows "\<forall>l \<in> set (wrap_words ws current_line lines).
           l \<noteq> [] \<and> (length l \<le> max_length \<or> l \<in> W)"
  using assms
proof (induction ws arbitrary: current_line lines)
  case Nil
  then show ?case by auto
next
  case (Cons word rest)
  have rest: "set rest \<subseteq> W" and word: "word \<in> W"
    using Cons.prems(3) by simp_all
  show ?case
  proof (cases "length current_line + length word + 1 \<le> max_length")
    case True
    let ?cur = "current_line @ (if current_line \<noteq> [] then '' '' else []) @ word"
    have eq: "wrap_words (word # rest) current_line lines = wrap_words rest ?cur lines"
      using True by (simp only: wrap_words.simps if_True)
    have "length ?cur \<le> max_length"
      using True by (cases "current_line = []") simp_all
    then have cur: "length ?cur \<le> max_length \<or> ?cur \<in> W" ..
    show ?thesis
      unfolding eq by (rule Cons.IH [OF Cons.prems(1) cur rest])
  next
    case False
    let ?lines = "if current_line \<noteq> [] then lines @ [current_line] else lines"
    have eq: "wrap_words (word # rest) current_line lines = wrap_words rest word ?lines"
      using False by (simp only: wrap_words.simps if_False)
    have lines: "\<forall>l \<in> set ?lines. l \<noteq> [] \<and> (length l \<le> max_length \<or> l \<in> W)"
    proof (cases "current_line = []")
      case True
      then show ?thesis using Cons.prems(1) by simp
    next
      case False
      then show ?thesis using Cons.prems(1,2) by auto
    qed
    have cur: "length word \<le> max_length \<or> word \<in> W"
      using word ..
    show ?thesis
      unfolding eq by (rule Cons.IH [OF lines cur rest])
  qed
qed

text \<open>The words of the lines, empty words apart, are the words of the input in
  order.\<close>

lemma wrap_words_words:
  assumes "\<forall>w \<in> set ws. CHR '' '' \<notin> set w"
  shows "filter (\<lambda>w. w \<noteq> []) (concat (map (split_on CHR '' '') (wrap_words ws current_line lines)))
           = filter (\<lambda>w. w \<noteq> [])
               (concat (map (split_on CHR '' '') lines)
                @ (if current_line = [] then [] else split_on CHR '' '' current_line))
             @ filter (\<lambda>w. w \<noteq> []) ws"
  using assms
proof (induction ws arbitrary: current_line lines)
  case Nil
  then show ?case by simp
next
  case (Cons word rest)
  have word: "split_on CHR '' '' word = [word]"
    using Cons.prems by (simp add: split_on_no_sep)
  have rest: "\<forall>w \<in> set rest. CHR '' '' \<notin> set w"
    using Cons.prems by simp
  show ?case
  proof (cases "length current_line + length word + 1 \<le> max_length")
    case True
    show ?thesis
    proof (cases "current_line = []")
      case True
      then show ?thesis
        using \<open>length current_line + length word + 1 \<le> max_length\<close>
          Cons.IH [OF rest, of word lines] word by simp
    next
      case False
      have "split_on CHR '' '' (current_line @ CHR '' '' # word)
              = split_on CHR '' '' current_line @ [word]"
        by (simp add: split_on_append_sep word)
      then show ?thesis
        using False \<open>length current_line + length word + 1 \<le> max_length\<close>
          Cons.IH [OF rest, of "current_line @ '' '' @ word" lines] by simp
    qed
  next
    case False
    then show ?thesis
      using Cons.IH [OF rest, of word "if current_line \<noteq> [] then lines @ [current_line] else lines"]
        word by simp
  qed
qed

text \<open>
  C9, as stated, fails for a title with a word longer than 50 characters: a word is
  never broken, so the line that holds it is longer than 50. The title below has no
  marker; its second word has 82 characters and becomes a line of its own.
\<close>

theorem process_title_long_word_exceeds_limit:
  "process_title_for_display
     ''Annex: https://www.ilo.org/global/topics/youth-employment/publications/lang--en/index.htm''
   = ''Annex:<br>https://www.ilo.org/global/topics/youth-employment/publications/lang--en/index.htm''
   \<and> length ''https://www.ilo.org/global/topics/youth-employment/publications/lang--en/index.htm''
       = 82"
  by (simp add: process_title_for_display_def wrap_title_def max_length_def)

text \<open>
  C9, amended. A title that contains \<open>Q2:\<close> or \<open>Q3:\<close> is split at its first colon into the
  question part and the content (the rest, trimmed). If both fit on one line (the two
  lengths, the colon and one space are at most 80) the title is returned unchanged.
  Otherwise, when the content has more than one word, exactly one line break takes the
  place of the space before word number \<open>n div 2\<close> (counting from 0) of its \<open>n\<close> words, and
  when the content is one word the break follows the question part. Every other title
  of at most 50 characters is returned unchanged. A longer one is packed word by word
  into lines joined by line breaks: no line is empty, a line is at most 50 characters
  long unless it is a single word of the title that is longer than that, and the
  non-empty words of the lines are the non-empty words of the title, in order.
\<close>

theorem process_title_for_display_cases:
  "(contains ''Q2:'' title \<or> contains ''Q3:'' title \<longrightarrow>
      (\<exists>question rest content ws.
         title = question @ '':'' @ rest \<and> CHR '':'' \<notin> set question
         \<and> content = strip rest \<and> ws = split_on CHR '' '' content
         \<and> process_title_for_display title =
             (if length question + 1 + length content + 1 \<le> 80 then title
              else if length ws > 1
              then question @ '': '' @ join '' '' (take (length ws div 2) ws)
                     @ ''<br>'' @ join '' '' (drop (length ws div 2) ws)
              else question @ '':<br>'' @ content)
         \<and> (length ws > 1 \<longrightarrow>
               join '' '' (take (length ws div 2) ws) @ '' ''
                 @ join '' '' (drop (length ws div 2) ws) = content)))
   \<and> (\<not> (contains ''Q2:'' title \<or> contains ''Q3:'' title) \<and> length title \<le> 50 \<longrightarrow>
        process_title_for_display title = title)
   \<and> (\<not> (contains ''Q2:'' title \<or> contains ''Q3:'' title) \<and> length title > 50 \<longrightarrow>
        (\<exists>lines.
           lines = wrap_words (split_on CHR '' '' title) [] []
           \<and> process_title_for_display title = join ''<br>'' lines
           \<and> (\<forall>line \<in> set lines.
                 line \<noteq> []
                 \<and> (length line \<le> 50
                    \<or> (line \<in> set (split_on CHR '' '' title) \<and> CHR '' '' \<notin> set line)))
           \<and> filter (\<lambda>w. w \<noteq> []) (concat (map (split_on CHR '' '') lines))
               = filter (\<lambda>w. w \<noteq> []) (split_on CHR '' '' title)))"
proof (intro conjI impI)
  assume marker: "contains ''Q2:'' title \<or> contains ''Q3:'' title"
  then have colon: "CHR '':'' \<in> set title"
    by (rule marker_has_colon)
  then have ne: "title \<noteq> []" by auto
  let ?question = "fst (split_first CHR '':'' title)"
  let ?rest = "snd (split_first CHR '':'' title)"
  let ?content = "strip ?rest"
  let ?ws = "split_on CHR '' '' ?content"
  have parts: "title = ?question @ '':'' @ ?rest" "CHR '':'' \<notin> set ?question"
    using split_first_parts [OF colon] by simp_all
  have result: "process_title_for_display title =
             (if length ?question + 1 + length ?content + 1 \<le> 80 then title
              else if length ?ws > 1
              then ?question @ '': '' @ join '' '' (take (length ?ws div 2) ?ws)
                     @ ''<br>'' @ join '' '' (drop (length ?ws div 2) ?ws)
              else ?question @ '':<br>'' @ ?content)"
    using marker colon ne by (simp add: process_title_for_display_def Let_def)
  have rejoin: "join '' '' (take (length ?ws div 2) ?ws) @ '' ''
                 @ join '' '' (drop (length ?ws div 2) ?ws) = ?content"
    if many: "length ?ws > 1"
  proof -
    have "take (length ?ws div 2) ?ws \<noteq> []" and "drop (length ?ws div 2) ?ws \<noteq> []"
      using many by auto
    then have "join '' '' (take (length ?ws div 2) ?ws @ drop (length ?ws div 2) ?ws)
          = join '' '' (take (length ?ws div 2) ?ws) @ '' ''
              @ join '' '' (drop (length ?ws div 2) ?ws)"
      by (rule join_append)
    then show ?thesis
      by (simp only: append_take_drop_id join_split_on)
  qed
  from parts result rejoin
  show "\<exists>question rest content ws.
         title = question @ '':'' @ rest \<and> CHR '':'' \<notin> set question
         \<and> content = strip rest \<and> ws = split_on CHR '' '' content
         \<and> process_title_for_display title =
             (if length question + 1 + length content + 1 \<le> 80 then title
              else if length ws > 1
              then question @ '': '' @ join '' '' (take (length ws div 2) ws)
                     @ ''<br>'' @ join '' '' (drop (length ws div 2) ws)
              else question @ '':<br>'' @ content)
         \<and> (length ws > 1 \<longrightarrow>
               join '' '' (take (length ws div 2) ws) @ '' ''
                 @ join '' '' (drop (length ws div 2) ws) = content)"
    by blast
next
  assume "\<not> (contains ''Q2:'' title \<or> contains ''Q3:'' title) \<and> length title \<le> 50"
  then show "process_title_for_display title = title"
    by (simp add: process_title_for_display_def wrap_title_def max_length_def)
next
  assume plain: "\<not> (contains ''Q2:'' title \<or> contains ''Q3:'' title) \<and> length title > 50"
  let ?ws = "split_on CHR '' '' title"
  let ?lines = "wrap_words ?ws [] []"
  have result: "process_title_for_display title = join ''<br>'' ?lines"
    using plain by (auto simp: process_title_for_display_def wrap_title_def max_length_def)
  have no_space: "\<forall>w \<in> set ?ws. CHR '' '' \<notin> set w"
    using split_on_words by blast
  have "\<forall>l \<in> set ?lines. l \<noteq> [] \<and>
          (length l \<le> max_length \<or> l \<in> {w \<in> set ?ws. CHR '' '' \<notin> set w})"
    by (rule wrap_words_lines) (use no_space in auto)
  then have lines: "\<forall>line \<in> set ?lines.
                 line \<noteq> []
                 \<and> (length line \<le> 50 \<or> (line \<in> set ?ws \<and> CHR '' '' \<notin> set line))"
    by (simp add: max_length_def)
  have words: "filter (\<lambda>w. w \<noteq> []) (concat (map (split_on CHR '' '') ?lines))
               = filter (\<lambda>w. w \<noteq> []) ?ws"
    using wrap_words_words [OF no_space, of "[]" "[]"] by simp
  from result lines words
  show "\<exists>lines.
           lines = wrap_words (split_on CHR '' '' title) [] []
           \<and> process_title_for_display title = join ''<br>'' lines
           \<and> (\<forall>line \<in> set lines.
                 line \<noteq> []
                 \<and> (length line \<le> 50
                    \<or> (line \<in> set (split_on CHR '' '' title) \<and> CHR '' '' \<notin> set line)))
           \<and> filter (\<lambda>w. w \<noteq> []) (concat (map (split_on CHR '' '') lines))
               = filter (\<lambda>w. w \<noteq> []) (split_on CHR '' '' title)"
    by blast
qed

theorem process_title_for_display_cases_witness:
  "process_title_for_display ''Q2: Do you agree?'' = ''Q2: Do you agree?''
   \<and> process_title_for_display
       ''Q3: Distribution of outputs across the clusters of the youth employment implementation framework''
     = ''Q3: Distribution of outputs across the clusters<br>of the youth employment implementation framework''
   \<and> process_title_for_display ''Regional overview'' = ''Regional overview''
   \<and> process_title_for_display
       ''Distribution of outputs across the clusters of the youth employment implementation framework''
     = ''Distribution of outputs across the clusters of the<br>youth employment implementation framework''"
proof -
  have short: "\<not> (contains ''Q2:'' ''Regional overview'' \<or> contains ''Q3:'' ''Regional overview'')
               \<and> length ''Regional overview'' \<le> 50"
    by simp
  from process_title_for_display_cases [of "''Regional overview''"] short
  have "process_title_for_display ''Regional overview'' = ''Regional overview''"
    by blast
  then show ?thesis
    by (simp add: process_title_for_display_def wrap_title_def max_length_def
        split_first_def strip_def is_space_def)
qed

section \<open>Lemmas on floats\<close>

subsection \<open>Rounding a ratio to an integer\<close>

lemma round_half_even_rat:
  assumes "q > 0"
  shows "round_half_even p q =
     (if (of_int p / of_int q :: rat) - of_int (p div q) < 1 / 2 then p div q
      else if (of_int p / of_int q :: rat) - of_int (p div q) > 1 / 2 then p div q + 1
      else if even (p div q) then p div q else p div q + 1)"
proof -
  have q: "(of_int q :: rat) > 0"
    using assms by simp
  have "p = q * (p div q) + p mod q"
    by simp
  then have "(of_int p :: rat) = of_int q * of_int (p div q) + of_int (p mod q)"
    by (metis of_int_add of_int_mult)
  then have frac: "(of_int p / of_int q :: rat) - of_int (p div q) = of_int (p mod q) / of_int q"
    using q by (simp add: field_simps)
  have lt: "(of_int (p mod q) / of_int q :: rat) < 1 / 2 \<longleftrightarrow> 2 * (p mod q) < q"
  proof -
    have "(of_int (p mod q) / of_int q :: rat) < 1 / 2
            \<longleftrightarrow> (of_int (2 * (p mod q)) :: rat) < of_int q"
      using q by (simp add: field_simps)
    then show ?thesis by (simp only: of_int_less_iff)
  qed
  have gt: "(of_int (p mod q) / of_int q :: rat) > 1 / 2 \<longleftrightarrow> 2 * (p mod q) > q"
  proof -
    have "(of_int (p mod q) / of_int q :: rat) > 1 / 2
            \<longleftrightarrow> (of_int q :: rat) < of_int (2 * (p mod q))"
      using q by (simp add: field_simps)
    then show ?thesis by (simp only: of_int_less_iff)
  qed
  show ?thesis
    unfolding frac lt gt by (simp add: round_half_even_def Let_def)
qed

lemma div_floor_rat:
  assumes "q > 0"
  shows "(of_int (p div q) :: rat) \<le> of_int p / of_int q
       \<and> (of_int p / of_int q :: rat) < of_int (p div q) + 1"
  using floor_correct [of "of_int p / of_int q :: rat"]
  by (simp add: floor_divide_of_int_eq)

lemma round_half_even_close:
  assumes "q > 0"
  shows "\<bar>of_int (round_half_even p q) - (of_int p / of_int q :: rat)\<bar> \<le> 1 / 2"
  using div_floor_rat [OF assms, of p]
  unfolding round_half_even_rat [OF assms]
  by (auto simp: abs_le_iff)

lemma round_half_even_unique:
  assumes "q > 0" and "\<bar>of_int N - (of_int p / of_int q :: rat)\<bar> < 1 / 2"
  shows "round_half_even p q = N"
proof -
  have "\<bar>(of_int (round_half_even p q) :: rat) - of_int N\<bar> < 1"
    using round_half_even_close [OF assms(1), of p] assms(2) by linarith
  then have "\<bar>(of_int (round_half_even p q - N) :: rat)\<bar> < of_int 1"
    by simp
  then have "\<bar>round_half_even p q - N\<bar> < 1"
    by (metis of_int_abs of_int_less_iff)
  then show ?thesis by simp
qed

lemma round_half_even_cong:
  assumes "q > 0" and "q' > 0" and "p * q' = p' * q"
  shows "round_half_even p q = round_half_even p' q'"
proof -
  have "(of_int p :: rat) * of_int q' = of_int p' * of_int q"
    using assms(3) by (metis of_int_mult)
  then have eq: "(of_int p / of_int q :: rat) = of_int p' / of_int q'"
    using assms(1,2) by (simp add: frac_eq_eq)
  have "p div q = \<lfloor>of_int p / of_int q :: rat\<rfloor>" "p' div q' = \<lfloor>of_int p' / of_int q' :: rat\<rfloor>"
    by (simp_all add: floor_divide_of_int_eq)
  then have "p div q = p' div q'"
    using eq by simp
  then show ?thesis
    unfolding round_half_even_rat [OF assms(1)] round_half_even_rat [OF assms(2)] eq
    by simp
qed

lemma round_half_even_ge:
  assumes "q > 0"
  shows "round_half_even p q \<ge> p div q"
  by (simp add: round_half_even_def Let_def)

lemma round_half_even_nonneg:
  assumes "q > 0" and "p \<ge> 0"
  shows "round_half_even p q \<ge> 0"
proof -
  have "0 \<le> p div q"
    using assms by (simp add: pos_imp_zdiv_nonneg_iff)
  with round_half_even_ge [OF assms(1), of p] show ?thesis
    by linarith
qed

lemma round_half_even_exact: "round_half_even p 1 = p"
  by (simp add: round_half_even_def)
subsection \<open>Logarithms\<close>

lemma digits_count_bounds:
  assumes "n > 0" and "b > 1"
  shows "b ^ (digits_count b n - 1) \<le> n \<and> n < b ^ digits_count b n"
  using assms
proof (induction b n rule: digits_count.induct)
  case (1 b n)
  have dc: "digits_count b n = Suc (digits_count b (n div b))"
    using "1.prems" by (subst digits_count.simps) simp
  show ?case
  proof (cases "n div b = 0")
    case True
    then have "n < b"
      using "1.prems" by (simp add: zdiv_eq_0_iff)
    moreover have "digits_count b (n div b) = 0"
      using True by (subst digits_count.simps) simp
    ultimately show ?thesis
      using "1.prems" dc by simp
  next
    case False
    then have pos: "n div b > 0"
      using "1.prems" by (simp add: pos_imp_zdiv_pos_iff zdiv_eq_0_iff)
    have "\<not> (n \<le> 0 \<or> b \<le> 1)"
      using "1.prems" by simp
    from "1.IH" [OF this pos "1.prems"(2)]
    have lo: "b ^ (digits_count b (n div b) - 1) \<le> n div b"
      and hi: "n div b < b ^ digits_count b (n div b)"
      by simp_all
    have d1: "digits_count b (n div b) \<ge> 1"
      using pos "1.prems"(2) by (subst digits_count.simps) simp
    have split: "b * (n div b) + n mod b = n"
      by simp
    have md: "0 \<le> n mod b" "n mod b < b"
      using "1.prems"(2) by simp_all
    have "b * (n div b) \<le> n"
      using split md by linarith
    moreover have "b * b ^ (digits_count b (n div b) - 1) \<le> b * (n div b)"
      using lo "1.prems"(2) by simp
    moreover have "b * b ^ (digits_count b (n div b) - 1) = b ^ digits_count b (n div b)"
      using d1 by (cases "digits_count b (n div b)") simp_all
    ultimately have low: "b ^ digits_count b (n div b) \<le> n"
      by simp
    have "b * (n div b + 1) = b * (n div b) + b"
      by (simp add: distrib_left)
    then have "n < b * (n div b + 1)"
      using split md by linarith
    moreover have "b * (n div b + 1) \<le> b * b ^ digits_count b (n div b)"
      using hi "1.prems"(2) by simp
    ultimately have "n < b ^ Suc (digits_count b (n div b))"
      by simp
    with low show ?thesis
      using dc by simp
  qed
qed

lemma digits_count_rat:
  assumes "n > 0" and "b > 1"
  shows "(of_int b :: rat) powi (int (digits_count b n) - 1) \<le> of_int n
       \<and> (of_int n :: rat) < of_int b powi int (digits_count b n)"
proof -
  have "digits_count b n = Suc (digits_count b (n div b))"
    using assms by (subst digits_count.simps) simp
  then obtain d where d: "digits_count b n = Suc d"
    by blast
  have "b ^ d \<le> n" and "n < b ^ Suc d"
    using digits_count_bounds [OF assms] by (simp_all only: d diff_Suc_1)
  then have "(of_int (b ^ d) :: rat) \<le> of_int n" and "(of_int n :: rat) < of_int (b ^ Suc d)"
    by (simp_all only: of_int_le_iff of_int_less_iff)
  then have lo: "(of_int b :: rat) ^ d \<le> of_int n" and hi: "(of_int n :: rat) < of_int b ^ Suc d"
    by (simp_all only: of_int_power)
  have e1: "int (Suc d) - 1 = int d"
    by simp
  show ?thesis
    unfolding d e1 power_int_of_nat using lo hi by (rule conjI)
qed

lemma floor_log_test:
  assumes "p > 0" and "q > 0" and "b > 1"
  shows "(if k \<ge> 0 then b ^ nat k * q \<le> p else q \<le> p * b ^ nat (- k))
           \<longleftrightarrow> (of_int b :: rat) powi k \<le> of_int p / of_int q"
proof (cases "k \<ge> 0")
  case True
  have "(of_int b :: rat) powi k \<le> of_int p / of_int q
          \<longleftrightarrow> (of_int (b ^ nat k * q) :: rat) \<le> of_int p"
    using assms(2) True by (simp add: power_int_def le_divide_eq)
  also have "\<dots> \<longleftrightarrow> b ^ nat k * q \<le> p"
    by (simp only: of_int_le_iff)
  finally show ?thesis
    using True by simp
next
  case False
  have bp: "(of_int b :: rat) ^ nat (- k) > 0"
    using assms(3) by simp
  have "(of_int b :: rat) powi k \<le> of_int p / of_int q
          \<longleftrightarrow> (of_int q :: rat) \<le> of_int (p * b ^ nat (- k))"
    using assms(2) False bp by (simp add: power_int_def field_simps)
  also have "\<dots> \<longleftrightarrow> q \<le> p * b ^ nat (- k)"
    by (simp only: of_int_le_iff)
  finally show ?thesis
    using False by simp
qed

lemma floor_log_bounds:
  assumes "p > 0" and "q > 0" and "b > 1"
  shows "(of_int b :: rat) powi (floor_log b p q) \<le> of_int p / of_int q
       \<and> (of_int p / of_int q :: rat) < of_int b powi (floor_log b p q + 1)"
proof -
  define B where "B = (of_int b :: rat)"
  define P where "P = (of_int p :: rat)"
  define Q where "Q = (of_int q :: rat)"
  define dp where "dp = int (digits_count b p)"
  define dq where "dq = int (digits_count b q)"
  define k where "k = dp - dq"
  have B: "B > 1" and P: "P > 0" and Q: "Q > 0"
    using assms by (simp_all add: B_def P_def Q_def)
  have B0: "B \<noteq> 0" using B by simp
  have pw: "\<And>j. B powi j > 0"
    using B by (simp add: zero_less_power_int)
  have plo: "B powi (dp - 1) \<le> P" and phi: "P < B powi dp"
    using digits_count_rat [OF assms(1,3)] by (simp_all add: B_def P_def dp_def)
  have qlo: "B powi (dq - 1) \<le> Q" and qhi: "Q < B powi dq"
    using digits_count_rat [OF assms(2,3)] by (simp_all add: B_def Q_def dq_def)
  have upper: "P / Q < B powi (k + 1)"
  proof -
    have "P < B powi (k + 1) * B powi (dq - 1)"
      using phi B0 by (simp add: power_int_add [symmetric] k_def)
    also have "\<dots> \<le> B powi (k + 1) * Q"
      using qlo pw [of "k + 1"] by simp
    finally show ?thesis
      using Q by (simp add: divide_less_eq)
  qed
  have lower: "B powi (k - 1) < P / Q"
  proof -
    have "B powi (k - 1) * Q < B powi (k - 1) * B powi dq"
      using qhi pw [of "k - 1"] by simp
    also have "\<dots> = B powi (dp - 1)"
      using B0 by (simp add: power_int_add [symmetric] k_def)
    also have "\<dots> \<le> P"
      by (rule plo)
    finally show ?thesis
      using Q by (simp add: less_divide_eq)
  qed
  have test: "(if k \<ge> 0 then b ^ nat k * q \<le> p else q \<le> p * b ^ nat (- k)) \<longleftrightarrow> B powi k \<le> P / Q"
    unfolding B_def P_def Q_def by (rule floor_log_test [OF assms])
  have unfold: "floor_log b p q = (if B powi k \<le> P / Q then k else k - 1)"
    unfolding test [symmetric] by (simp only: floor_log_def Let_def k_def dp_def dq_def)
  show ?thesis
  proof (cases "B powi k \<le> P / Q")
    case True
    then have "floor_log b p q = k"
      unfolding unfold by (rule if_P)
    with True upper show ?thesis
      by (simp only: B_def [symmetric] P_def [symmetric] Q_def [symmetric])
  next
    case False
    then have fl: "floor_log b p q = k - 1"
      unfolding unfold by (rule if_not_P)
    from False have "P / Q < B powi (k - 1 + 1)" by simp
    moreover from lower have "B powi (k - 1) \<le> P / Q" by simp
    ultimately show ?thesis
      unfolding fl by (simp only: B_def [symmetric] P_def [symmetric] Q_def [symmetric])
  qed
qed

lemma floor_log_unique:
  assumes "p > 0" and "q > 0" and "b > 1"
      and "(of_int b :: rat) powi k \<le> of_int p / of_int q"
      and "(of_int p / of_int q :: rat) < of_int b powi (k + 1)"
  shows "floor_log b p q = k"
proof -
  define l where "l = floor_log b p q"
  have B: "(of_int b :: rat) \<ge> 1"
    using assms(3) by simp
  have lo: "(of_int b :: rat) powi l \<le> of_int p / of_int q"
    and hi: "(of_int p / of_int q :: rat) < of_int b powi (l + 1)"
    using floor_log_bounds [OF assms(1-3)] by (simp_all add: l_def)
  have "\<not> l < k"
  proof
    assume "l < k"
    then have "(of_int b :: rat) powi (l + 1) \<le> of_int b powi k"
      using B by (intro power_int_increasing) simp_all
    with hi assms(4) show False by simp
  qed
  moreover have "\<not> k < l"
  proof
    assume "k < l"
    then have "(of_int b :: rat) powi (k + 1) \<le> of_int b powi l"
      using B by (intro power_int_increasing) simp_all
    with lo assms(5) show False by simp
  qed
  ultimately show ?thesis
    unfolding l_def by simp
qed

lemma floor_log_cong:
  assumes "p > 0" and "q > 0" and "p' > 0" and "q' > 0" and "b > 1" and "p * q' = p' * q"
  shows "floor_log b p q = floor_log b p' q'"
proof -
  have "(of_int p :: rat) * of_int q' = of_int p' * of_int q"
    using assms(6) by (metis of_int_mult)
  then have eq: "(of_int p / of_int q :: rat) = of_int p' / of_int q'"
    using assms(2,4) by (simp add: frac_eq_eq)
  show ?thesis
    using floor_log_bounds [OF assms(3,4,5)] unfolding eq [symmetric]
    by (intro floor_log_unique [OF assms(1,2,5)]) simp_all
qed
subsection \<open>The nearest float\<close>

lemma mantissa_normalize_float:
  "(mantissa (normalize_float m e) > 0 \<longleftrightarrow> m > 0)
   \<and> (mantissa (normalize_float m e) = 0 \<longleftrightarrow> m = 0)"
proof (induction m e rule: normalize_float.induct)
  case (1 m e)
  show ?case
  proof (cases "m = 0")
    case True
    then show ?thesis by (subst (1 2) normalize_float.simps) simp
  next
    case nz: False
    show ?thesis
    proof (cases "even m")
      case True
      then have "m div 2 > 0 \<longleftrightarrow> m > 0" and "m div 2 = 0 \<longleftrightarrow> m = 0"
        by presburger+
      then show ?thesis
        using "1.IH" [OF nz True] nz True by (subst (1 2) normalize_float.simps) simp
    next
      case False
      then show ?thesis
        using nz by (subst (1 2) normalize_float.simps) simp
    qed
  qed
qed

lemma fle_zero_right: "fle x (Float 0 0) \<longleftrightarrow> mantissa x \<le> 0"
  by (simp add: fle_def Let_def mult_le_0_iff)

lemma fle_zero_left: "fle (Float 0 0) x \<longleftrightarrow> mantissa x \<ge> 0"
  by (simp add: fle_def Let_def zero_le_mult_iff)

lemma value_shift:
  assumes "e \<le> ex"
  shows "of_int m * (2::rat) powi ex = of_int (m * 2 ^ nat (ex - e)) * 2 powi e"
proof -
  have "(2::rat) powi ex = 2 powi ((ex - e) + e)"
    by simp
  also have "\<dots> = 2 powi (ex - e) * 2 powi e"
    by (rule power_int_add) simp
  also have "(2::rat) powi (ex - e) = 2 ^ nat (ex - e)"
    using assms by (simp add: power_int_def)
  finally show ?thesis
    by simp
qed

lemma fle_iff: "fle x y \<longleftrightarrow> float_value x \<le> float_value y"
proof -
  let ?e = "min (exponent x) (exponent y)"
  have x: "float_value x = of_int (mantissa x * 2 ^ nat (exponent x - ?e)) * 2 powi ?e"
    unfolding float_value_def by (rule value_shift) simp
  have y: "float_value y = of_int (mantissa y * 2 ^ nat (exponent y - ?e)) * 2 powi ?e"
    unfolding float_value_def by (rule value_shift) simp
  have pos: "(2::rat) powi ?e > 0"
    by (simp add: zero_less_power_int)
  have "float_value x \<le> float_value y
          \<longleftrightarrow> (of_int (mantissa x * 2 ^ nat (exponent x - ?e)) :: rat)
              \<le> of_int (mantissa y * 2 ^ nat (exponent y - ?e))"
    unfolding x y using pos by (simp only: mult_le_cancel_right_pos)
  also have "\<dots> \<longleftrightarrow> fle x y"
    by (simp only: of_int_le_iff fle_def Let_def)
  finally show ?thesis by simp
qed

lemma fle_refl: "fle x x"
  by (simp add: fle_iff)

lemma fle_trans: "fle x y \<Longrightarrow> fle y z \<Longrightarrow> fle x z"
  by (simp add: fle_iff)

lemma fle_total: "fle x y \<or> fle y x"
  by (auto simp: fle_iff)

lemma float_value_normalize_float:
  "float_value (normalize_float m e) = of_int m * 2 powi e"
proof (induction m e rule: normalize_float.induct)
  case (1 m e)
  show ?case
  proof (cases "m = 0")
    case True
    then show ?thesis
      by (subst normalize_float.simps) (simp add: float_value_def)
  next
    case nz: False
    show ?thesis
    proof (cases "even m")
      case True
      then obtain h where h: "m = 2 * h" by (auto elim: evenE)
      have "(2::rat) powi (e + 1) = 2 powi e * 2"
        by (simp add: power_int_add)
      then have "of_int (m div 2) * (2::rat) powi (e + 1) = of_int m * 2 powi e"
        using h by simp
      then show ?thesis
        using "1.IH" [OF nz True] nz True by (subst normalize_float.simps) simp
    next
      case False
      then show ?thesis
        using nz by (subst normalize_float.simps) (simp add: float_value_def)
    qed
  qed
qed

lemma normalize_float_zero:
  assumes "mantissa (normalize_float m e) = 0"
  shows "normalize_float m e = Float 0 0"
proof -
  have "m = 0"
    using assms mantissa_normalize_float [of m e] by simp
  then show ?thesis
    by (subst normalize_float.simps) simp
qed

lemma float_value_sign:
  "(float_value x > 0 \<longleftrightarrow> mantissa x > 0) \<and> (float_value x = 0 \<longleftrightarrow> mantissa x = 0)"
proof -
  have pos: "(2::rat) powi exponent x > 0"
    by (simp add: zero_less_power_int)
  have n1: "\<not> (2::rat) powi exponent x < 0"
    using pos by linarith
  have n2: "(2::rat) powi exponent x \<noteq> 0"
    using pos by linarith
  show ?thesis
    unfolding float_value_def zero_less_mult_iff mult_eq_0_iff using pos n1 n2 by simp
qed

text \<open>The scaled ratio that \<open>round_ratio\<close> rounds to an integer.\<close>

lemma round_ratio_unfold:
  assumes "p \<noteq> 0" and "q > 0" and "e = max (floor_log 2 \<bar>p\<bar> q - 52) (- 1074)"
  shows "\<exists>m. round_ratio p q = normalize_float (sgn p * m) e \<and> m \<ge> 0
           \<and> \<bar>of_int m - (of_int \<bar>p\<bar> / of_int q :: rat) / 2 powi e\<bar> \<le> 1 / 2"
proof -
  define a where "a = \<bar>p\<bar>"
  define m where "m = (if e \<ge> 0 then round_half_even a (q * 2 ^ nat e)
                       else round_half_even (a * 2 ^ nat (- e)) q)"
  have a: "a > 0"
    using assms(1) by (simp add: a_def)
  have rr: "round_ratio p q = normalize_float (sgn p * m) e"
    using assms(1) by (simp only: round_ratio_def Let_def m_def a_def assms(3) if_False)
  have m0: "m \<ge> 0"
    using a assms(2) by (simp add: m_def round_half_even_nonneg)
  have close: "\<bar>of_int m - (of_int a / of_int q :: rat) / 2 powi e\<bar> \<le> 1 / 2"
  proof (cases "e \<ge> 0")
    case True
    have "(of_int a / of_int q :: rat) / 2 powi e = of_int a / of_int (q * 2 ^ nat e)"
      using True by (simp add: power_int_def)
    moreover have "q * 2 ^ nat e > 0"
      using assms(2) by simp
    ultimately show ?thesis
      using round_half_even_close [of "q * 2 ^ nat e" a] True by (simp only: m_def if_True)
  next
    case False
    have "(of_int a / of_int q :: rat) / 2 powi e = of_int (a * 2 ^ nat (- e)) / of_int q"
      using False by (simp add: power_int_def field_simps)
    then show ?thesis
      using round_half_even_close [OF assms(2), of "a * 2 ^ nat (- e)"] False
      by (simp only: m_def if_False)
  qed
  from rr m0 close show ?thesis
    unfolding a_def by blast
qed

lemma round_ratio_zero: "round_ratio 0 q = Float 0 0"
  by (simp add: round_ratio_def)

lemma round_scaled_zero: "round_scaled 0 b e = Float 0 0"
  by (simp add: round_scaled_def round_ratio_zero)

lemma float_of_int_zero: "float_of_int 0 = Float 0 0"
  by (simp add: float_of_int_def round_ratio_zero)

lemma round_ratio_nonneg:
  assumes "p \<ge> 0" and "q > 0"
  shows "mantissa (round_ratio p q) \<ge> 0"
proof (cases "p = 0")
  case True
  then show ?thesis by (simp add: round_ratio_zero)
next
  case False
  from round_ratio_unfold [OF False assms(2) refl]
  obtain m where rr: "round_ratio p q =
      normalize_float (sgn p * m) (max (floor_log 2 \<bar>p\<bar> q - 52) (- 1074))" and m: "m \<ge> 0"
    by blast
  have "sgn p * m \<ge> 0"
    using assms(1) False m by simp
  then show ?thesis
    unfolding rr
    using mantissa_normalize_float [of "sgn p * m" "max (floor_log 2 \<bar>p\<bar> q - 52) (- 1074)"]
    by (cases "sgn p * m = 0") auto
qed

lemma round_ratio_normal:
  assumes "mantissa (round_ratio p q) = 0"
  shows "round_ratio p q = Float 0 0"
proof (cases "p = 0")
  case True
  then show ?thesis by (simp add: round_ratio_zero)
next
  case False
  then show ?thesis
    using assms by (simp only: round_ratio_def Let_def if_False) (rule normalize_float_zero)
qed

text \<open>
  The rounding error: a ratio that is not below \<open>2 ^ - 1022\<close> is rounded to 53 bits, so
  the float differs from it by at most the ratio over \<open>2 ^ 53\<close>.
\<close>

lemma round_ratio_error:
  assumes "p > 0" and "q > 0" and "j \<ge> - 1022" and "(2::rat) powi j \<le> of_int p / of_int q"
  shows "\<bar>float_value (round_ratio p q) - of_int p / of_int q\<bar> \<le> (of_int p / of_int q) / 2 ^ 53"
proof -
  define t where "t = (of_int p / of_int q :: rat)"
  define k where "k = floor_log 2 p q"
  define e where "e = max (k - 52) (- 1074)"
  have lo: "(2::rat) powi k \<le> t" and hi: "t < 2 powi (k + 1)"
    using floor_log_bounds [OF assms(1,2), of 2] by (simp_all add: k_def t_def)
  have "\<not> k + 1 \<le> j"
  proof
    assume "k + 1 \<le> j"
    then have "(2::rat) powi (k + 1) \<le> 2 powi j"
      by (intro power_int_increasing) simp_all
    with hi assms(4) show False by (simp add: t_def)
  qed
  then have e: "e = k - 52"
    using assms(3) by (simp add: e_def)
  have p0: "p \<noteq> 0" and ap: "\<bar>p\<bar> = p" and sp: "sgn p = 1"
    using assms(1) by simp_all
  from round_ratio_unfold [OF p0 assms(2) refl]
  obtain m where rr: "round_ratio p q = normalize_float m e"
    and close: "\<bar>of_int m - t / 2 powi e\<bar> \<le> 1 / 2"
    unfolding ap sp e_def k_def t_def by auto
  have pw: "(2::rat) powi e > 0"
    by (simp add: zero_less_power_int)
  have "float_value (round_ratio p q) - t = (of_int m - t / 2 powi e) * 2 powi e"
    unfolding rr float_value_normalize_float using pw by (simp add: field_simps)
  then have "\<bar>float_value (round_ratio p q) - t\<bar> = \<bar>of_int m - t / 2 powi e\<bar> * 2 powi e"
    using pw by (simp add: abs_mult)
  also have "\<dots> \<le> 1 / 2 * 2 powi e"
    using close pw by (intro mult_right_mono) simp_all
  also have "(2::rat) powi e = 2 powi k / 2 ^ 52"
    unfolding e by (simp add: power_int_diff)
  also have "1 / 2 * ((2::rat) powi k / 2 ^ 52) = 2 powi k / 2 ^ 53"
    by simp
  also have "\<dots> \<le> t / 2 ^ 53"
    using lo by (simp add: divide_right_mono)
  finally show ?thesis
    unfolding t_def .
qed

lemma round_ratio_cong:
  assumes "q > 0" and "q' > 0" and "p * q' = p' * q"
  shows "round_ratio p q = round_ratio p' q'"
proof (cases "p = 0")
  case True
  then have "p' = 0"
    using assms by auto
  with True show ?thesis by (simp add: round_ratio_zero)
next
  case False
  then have p': "p' \<noteq> 0"
    using assms by auto
  have sg: "sgn p = sgn p'"
  proof -
    have "sgn (p * q') = sgn (p' * q)"
      using assms(3) by simp
    then show ?thesis
      using assms(1,2) by (simp add: sgn_mult)
  qed
  have ab: "\<bar>p\<bar> * q' = \<bar>p'\<bar> * q"
  proof -
    have "\<bar>p * q'\<bar> = \<bar>p' * q\<bar>"
      using assms(3) by simp
    then show ?thesis
      using assms(1,2) by (simp add: abs_mult)
  qed
  have a: "\<bar>p\<bar> > 0" and a': "\<bar>p'\<bar> > 0"
    using False p' by simp_all
  have two: "(2::int) > 1" by simp
  have fl: "floor_log 2 \<bar>p\<bar> q = floor_log 2 \<bar>p'\<bar> q'"
    by (rule floor_log_cong [OF a assms(1) a' assms(2) two ab])
  define e where "e = max (floor_log 2 \<bar>p'\<bar> q' - 52) (- 1074)"
  have m1: "round_half_even \<bar>p\<bar> (q * 2 ^ nat e) = round_half_even \<bar>p'\<bar> (q' * 2 ^ nat e)"
    using assms(1,2) ab by (intro round_half_even_cong) (simp_all add: mult.assoc [symmetric])
  have m2: "round_half_even (\<bar>p\<bar> * 2 ^ nat (- e)) q = round_half_even (\<bar>p'\<bar> * 2 ^ nat (- e)) q'"
  proof (rule round_half_even_cong [OF assms(1,2)])
    have "\<bar>p\<bar> * 2 ^ nat (- e) * q' = (\<bar>p\<bar> * q') * 2 ^ nat (- e)"
      by (simp add: mult.commute mult.left_commute)
    also have "\<dots> = (\<bar>p'\<bar> * q) * 2 ^ nat (- e)"
      by (simp only: ab)
    also have "\<dots> = \<bar>p'\<bar> * 2 ^ nat (- e) * q"
      by (simp add: mult.commute mult.left_commute)
    finally show "\<bar>p\<bar> * 2 ^ nat (- e) * q' = \<bar>p'\<bar> * 2 ^ nat (- e) * q" .
  qed
  show ?thesis
    using False p'
    by (simp only: round_ratio_def Let_def if_False fl sg e_def [symmetric] m1 m2)
qed
subsection \<open>The operations on floats\<close>

lemma int_close:
  assumes "\<bar>(of_int m :: rat) - of_int z\<bar> \<le> 1 / 2"
  shows "m = z"
proof -
  have "\<bar>(of_int (m - z) :: rat)\<bar> < of_int 1"
    using assms by simp
  then have "\<bar>m - z\<bar> < 1"
    by (metis of_int_abs of_int_less_iff)
  then show ?thesis by simp
qed

lemma ratio_cross:
  assumes "q > 0" and "q' > 0" and "(of_int p / of_int q :: rat) = of_int p' / of_int q'"
  shows "p * q' = p' * q"
proof -
  have "(of_int p :: rat) * of_int q' = of_int p' * of_int q"
    using assms by (simp add: frac_eq_eq)
  then have "(of_int (p * q') :: rat) = of_int (p' * q)"
    by simp
  then show ?thesis
    by (simp only: of_int_eq_iff)
qed

lemma round_ratio_rat:
  assumes "q > 0" and "q' > 0" and "(of_int p / of_int q :: rat) = of_int p' / of_int q'"
  shows "round_ratio p q = round_ratio p' q'"
  by (rule round_ratio_cong [OF assms(1,2) ratio_cross [OF assms]])

lemma round_ratio_int:
  assumes "q > 0" and "(of_int p / of_int q :: rat) = of_int z"
  shows "round_ratio p q = float_of_int z"
  unfolding float_of_int_def using assms by (intro round_ratio_rat) simp_all

lemma float_of_int_exact:
  assumes "\<bar>i\<bar> < 2 ^ 53"
  shows "float_value (float_of_int i) = of_int i"
proof (cases "i = 0")
  case True
  then show ?thesis
    by (simp add: float_of_int_zero float_value_def)
next
  case False
  define k where "k = floor_log 2 \<bar>i\<bar> 1"
  define e where "e = max (k - 52) (- 1074)"
  have a: "\<bar>i\<bar> > 0" using False by simp
  have lo: "(2::rat) powi k \<le> of_int \<bar>i\<bar>"
    using floor_log_bounds [OF a, of 1 2] by (simp add: k_def)
  have "\<not> 53 \<le> k"
  proof
    assume "53 \<le> k"
    then have "(2::rat) powi 53 \<le> 2 powi k"
      by (intro power_int_increasing) simp_all
    with lo have "(2::rat) powi 53 \<le> of_int \<bar>i\<bar>"
      by simp
    moreover have "(of_int \<bar>i\<bar> :: rat) < of_int (2 ^ 53)"
      using assms by (simp only: of_int_less_iff)
    ultimately show False by simp
  qed
  then have e0: "e \<le> 0"
    by (simp add: e_def)
  have one: "(1::int) > 0" by simp
  from round_ratio_unfold [OF False one refl]
  obtain m where rr: "float_of_int i = normalize_float (sgn i * m) e"
    and close: "\<bar>of_int m - (of_int \<bar>i\<bar> / of_int 1 :: rat) / 2 powi e\<bar> \<le> 1 / 2"
    unfolding float_of_int_def e_def k_def by blast
  have sc: "(of_int \<bar>i\<bar> / of_int 1 :: rat) / 2 powi e = of_int (\<bar>i\<bar> * 2 ^ nat (- e))"
    using e0 by (simp add: power_int_def field_simps)
  have m: "m = \<bar>i\<bar> * 2 ^ nat (- e)"
    using close unfolding sc by (rule int_close)
  have "float_value (float_of_int i) = of_int (sgn i * (\<bar>i\<bar> * 2 ^ nat (- e))) * 2 powi e"
    unfolding rr m by (simp only: float_value_normalize_float)
  also have "\<dots> = of_int i * ((2::rat) ^ nat (- e) * 2 powi e)"
    by (simp add: mult.assoc [symmetric] mult_sgn_abs)
  also have "(2::rat) ^ nat (- e) * 2 powi e = 1"
    using e0 by (simp add: power_int_def field_simps)
  finally show ?thesis by simp
qed

lemma float_of_int_sign:
  assumes "0 \<le> i" and "i < 2 ^ 53"
  shows "mantissa (float_of_int i) \<ge> 0" and "i > 0 \<Longrightarrow> mantissa (float_of_int i) > 0"
proof -
  have v: "float_value (float_of_int i) = of_int i"
    using assms by (intro float_of_int_exact) simp
  show "mantissa (float_of_int i) \<ge> 0"
    unfolding float_of_int_def using assms(1) by (intro round_ratio_nonneg) simp_all
  show "mantissa (float_of_int i) > 0" if "i > 0"
    using float_value_sign [of "float_of_int i"] v that by simp
qed

text \<open>Division, multiplication and addition round the exact quotient, product and sum.\<close>

lemma fdiv_ratio:
  assumes "mantissa y > 0"
  shows "\<exists>p q. q > 0 \<and> fdiv x y = round_ratio p q
           \<and> (of_int p / of_int q :: rat) = float_value x / float_value y"
proof -
  define d where "d = exponent x - exponent y"
  define p where "p = mantissa x * (if d \<ge> 0 then 2 ^ nat d else 1)"
  define q where "q = mantissa y * (if d < 0 then 2 ^ nat (- d) else 1)"
  have q: "q > 0"
    using assms by (simp add: q_def)
  then have eq: "fdiv x y = round_ratio p q"
    by (simp add: fdiv_def Let_def d_def [symmetric] p_def [symmetric] q_def [symmetric])
  have my: "(of_int (mantissa y) :: rat) \<noteq> 0"
    using assms by simp
  have "(2::rat) powi exponent x = 2 powi (d + exponent y)"
    by (simp add: d_def)
  also have "\<dots> = 2 powi d * 2 powi exponent y"
    by (rule power_int_add) simp
  finally have ex: "(2::rat) powi exponent x = 2 powi d * 2 powi exponent y" .
  have pw: "(2::rat) powi exponent y \<noteq> 0"
    by simp
  have "float_value x / float_value y
          = of_int (mantissa x) * (2::rat) powi d / of_int (mantissa y)"
    unfolding float_value_def ex using pw by simp
  also have "\<dots> = of_int p / of_int q"
    by (cases "d \<ge> 0") (simp_all add: p_def q_def power_int_def field_simps)
  finally show ?thesis
    using q eq by metis
qed

lemma fdiv_ints:
  assumes "float_value x = of_int a" and "float_value y = of_int b" and "b > 0"
  shows "fdiv x y = round_ratio a b"
proof -
  have "mantissa y > 0"
    using float_value_sign [of y] assms(2,3) by simp
  from fdiv_ratio [OF this, of x]
  obtain p q where q: "q > 0" and eq: "fdiv x y = round_ratio p q"
    and r: "(of_int p / of_int q :: rat) = float_value x / float_value y"
    by blast
  show ?thesis
    unfolding eq using q assms(3) r by (intro round_ratio_rat) (simp_all add: assms(1,2))
qed

lemma round_scaled_ratio:
  assumes "b > 0"
  shows "\<exists>p q. q > 0 \<and> round_scaled m b e = round_ratio p q
           \<and> (of_int p / of_int q :: rat) = of_int m * of_int b powi e"
proof (cases "e \<ge> 0")
  case True
  have "round_scaled m b e = round_ratio (m * b ^ nat e) 1"
    using True by (simp add: round_scaled_def)
  moreover have "(of_int (m * b ^ nat e) / of_int 1 :: rat) = of_int m * of_int b powi e"
    using True by (simp add: power_int_def)
  moreover have "(1::int) > 0" by simp
  ultimately show ?thesis by blast
next
  case False
  have "round_scaled m b e = round_ratio m (b ^ nat (- e))"
    using False by (simp add: round_scaled_def)
  moreover have "(of_int m / of_int (b ^ nat (- e)) :: rat) = of_int m * of_int b powi e"
    using False by (simp add: power_int_def field_simps)
  moreover have "b ^ nat (- e) > 0"
    using assms by simp
  ultimately show ?thesis by blast
qed

lemma fmul_ratio:
  "\<exists>p q. q > 0 \<and> fmul x y = round_ratio p q
         \<and> (of_int p / of_int q :: rat) = float_value x * float_value y"
proof -
  have two: "(2::int) > 0" by simp
  from round_scaled_ratio [OF two, of "mantissa x * mantissa y" "exponent x + exponent y"]
  obtain p q where q: "q > 0" and eq: "fmul x y = round_ratio p q"
    and r: "(of_int p / of_int q :: rat)
              = of_int (mantissa x * mantissa y) * of_int 2 powi (exponent x + exponent y)"
    unfolding fmul_def by blast
  have "(2::rat) powi (exponent x + exponent y) = 2 powi exponent x * 2 powi exponent y"
    by (rule power_int_add) simp
  then have "(of_int p / of_int q :: rat) = float_value x * float_value y"
    unfolding r float_value_def by simp
  with q eq show ?thesis by blast
qed

lemma fadd_ratio:
  "\<exists>p q. q > 0 \<and> fadd x y = round_ratio p q
         \<and> (of_int p / of_int q :: rat) = float_value x + float_value y"
proof -
  define e where "e = min (exponent x) (exponent y)"
  define s where "s = mantissa x * 2 ^ nat (exponent x - e) + mantissa y * 2 ^ nat (exponent y - e)"
  have two: "(2::int) > 0" by simp
  from round_scaled_ratio [OF two, of s e]
  obtain p q where q: "q > 0" and eq: "fadd x y = round_ratio p q"
    and r: "(of_int p / of_int q :: rat) = of_int s * of_int 2 powi e"
    unfolding fadd_def Let_def e_def s_def by blast
  have x: "float_value x = of_int (mantissa x * 2 ^ nat (exponent x - e)) * 2 powi e"
    unfolding float_value_def by (rule value_shift) (simp add: e_def)
  have y: "float_value y = of_int (mantissa y * 2 ^ nat (exponent y - e)) * 2 powi e"
    unfolding float_value_def by (rule value_shift) (simp add: e_def)
  have "(of_int p / of_int q :: rat) = float_value x + float_value y"
    unfolding r x y s_def by (simp add: distrib_right)
  with q eq show ?thesis by blast
qed

lemma fadd_ints:
  assumes "float_value x = of_int a" and "float_value y = of_int b"
  shows "fadd x y = float_of_int (a + b)"
proof -
  from fadd_ratio [of x y]
  obtain p q where q: "q > 0" and eq: "fadd x y = round_ratio p q"
    and r: "(of_int p / of_int q :: rat) = float_value x + float_value y"
    by blast
  show ?thesis
    unfolding eq using q r by (intro round_ratio_int) (simp_all add: assms)
qed

lemma rint_close: "\<bar>of_int (rint x) - float_value x\<bar> \<le> 1 / 2"
proof (cases "exponent x \<ge> 0")
  case True
  then show ?thesis
    by (simp add: rint_def float_value_def power_int_def)
next
  case False
  have "float_value x = of_int (mantissa x) / of_int (2 ^ nat (- exponent x))"
    using False by (simp add: float_value_def power_int_def field_simps)
  moreover have "(2::int) ^ nat (- exponent x) > 0"
    by simp
  ultimately show ?thesis
    using round_half_even_close [of "2 ^ nat (- exponent x)" "mantissa x"] False
    by (simp only: rint_def if_False)
qed

lemma rint_nonneg:
  assumes "mantissa x \<ge> 0"
  shows "rint x \<ge> 0"
  using assms by (simp add: rint_def round_half_even_nonneg)

lemma overflows_iff: "overflows x \<longleftrightarrow> 2 powi 1024 \<le> \<bar>float_value x\<bar>"
proof -
  have "(2::rat) powi exponent x > 0"
    by (simp add: zero_less_power_int)
  then have "\<bar>float_value x\<bar> = float_value (Float \<bar>mantissa x\<bar> (exponent x))"
    by (simp add: float_value_def abs_mult)
  then show ?thesis
    by (simp add: overflows_def fle_iff) (simp add: float_value_def)
qed

lemma small_not_overflows:
  assumes "\<bar>float_value x\<bar> < 2 ^ 53"
  shows "\<not> overflows x"
proof -
  have "(2::rat) powi 53 \<le> 2 powi 1024"
    by (intro power_int_increasing) simp_all
  then have "(2::rat) ^ 53 \<le> 2 powi 1024"
    by simp
  with assms show ?thesis
    unfolding overflows_iff by linarith
qed
subsection \<open>Conversion, sorting and the two cleaning loops\<close>

lemma py_float_small:
  assumes "\<bar>i\<bar> < 2 ^ 53"
  shows "py_float i = Inr (float_of_int i)"
proof -
  have "\<bar>float_value (float_of_int i)\<bar> < 2 ^ 53"
  proof -
    have "(of_int \<bar>i\<bar> :: rat) < of_int (2 ^ 53)"
      using assms by (simp only: of_int_less_iff)
    then show ?thesis
      by (simp add: float_of_int_exact [OF assms])
  qed
  then have "\<not> overflows (float_of_int i)"
    by (rule small_not_overflows)
  then show ?thesis
    by (simp add: py_float_def)
qed

lemma valid_items_py_values:
  assumes "\<forall>(label, c) \<in> set d. \<bar>c\<bar> < 2 ^ 53"
  shows "valid_items (py_values d)
           = Inr (map (\<lambda>(label, c). (clean_key_of label, float_of_int c)) d)"
  using assms
proof (induction d)
  case Nil
  then show ?case by (simp add: py_values_def)
next
  case (Cons p d)
  obtain label c where p: "p = (label, c)" by (cases p)
  have c: "\<bar>c\<bar> < 2 ^ 53"
    using Cons.prems by (simp add: p)
  have "valid_items (py_values d)
          = Inr (map (\<lambda>(label, c). (clean_key_of label, float_of_int c)) d)"
    using Cons.IH Cons.prems by simp
  moreover have "py_values (p # d) = (label, PInt c) # py_values d"
    by (simp add: py_values_def p)
  ultimately show ?case
    by (simp add: clean_value_of_def py_float_small [OF c] p)
qed

lemma set_insert_desc: "set (insert_desc r items) = insert r (set items)"
  by (induction items) auto

lemma set_sort_desc: "set (sort_desc items) = set items"
  by (induction items) (auto simp: sort_desc_def set_insert_desc)

lemma mset_insert_desc: "mset (insert_desc r items) = add_mset r (mset items)"
  by (induction items) auto

lemma mset_sort_desc: "mset (sort_desc items) = mset items"
  by (induction items) (auto simp: sort_desc_def mset_insert_desc)

lemma sorted_insert_desc:
  assumes "sorted_wrt (\<lambda>a b. fle (snd b) (snd a)) items"
  shows "sorted_wrt (\<lambda>a b. fle (snd b) (snd a)) (insert_desc r items)"
  using assms
proof (induction items)
  case Nil
  then show ?case by simp
next
  case (Cons s ss)
  show ?case
  proof (cases "fle (snd r) (snd s) \<and> snd r \<noteq> snd s")
    case True
    have "\<forall>z \<in> set (insert_desc r ss). fle (snd z) (snd s)"
      using Cons.prems True by (auto simp: set_insert_desc)
    moreover have "sorted_wrt (\<lambda>a b. fle (snd b) (snd a)) (insert_desc r ss)"
      using Cons.IH Cons.prems by simp
    moreover have "insert_desc r (s # ss) = s # insert_desc r ss"
      by (simp only: insert_desc.simps if_P [OF True])
    ultimately show ?thesis
      by simp
  next
    case False
    then have sr: "fle (snd s) (snd r)"
      using fle_total [of "snd r" "snd s"] fle_refl [of "snd s"] by auto
    have eq: "insert_desc r (s # ss) = r # s # ss"
      by (simp only: insert_desc.simps if_not_P [OF False])
    have "\<forall>z \<in> set ss. fle (snd z) (snd r)"
      using Cons.prems sr fle_trans by auto
    then show ?thesis
      unfolding eq using sr Cons.prems by simp
  qed
qed

lemma sorted_sort_desc: "sorted_wrt (\<lambda>a b. fle (snd b) (snd a)) (sort_desc items)"
  by (induction items) (auto simp: sort_desc_def sorted_insert_desc)


lemma keys_dict_set: "fst ` set (dict_set d k v) = insert k (fst ` set d)"
  using dict_has_dict_set [of d k v] by (auto simp: dict_has_def)

lemma keys_py_values: "map fst (py_values d) = map fst d"
  by (induction d) (auto simp: py_values_def)

lemma keys_clean_chart_data:
  assumes "clean_chart_data d acc = Inr clean_data"
  shows "fst ` set clean_data \<subseteq> fst ` set acc \<union> clean_key_of ` fst ` set d"
  using assms
proof (induction d arbitrary: acc)
  case Nil
  then show ?case by auto
next
  case (Cons p d)
  obtain key v where p: "p = (key, v)" by (cases p)
  have step: "fst ` set clean_data \<subseteq> fst ` set acc' \<union> clean_key_of ` fst ` set d"
    if "clean_chart_data d acc' = Inr clean_data" for acc'
    using Cons.IH [OF that] .
  from Cons.prems
  consider "clean_chart_data d acc = Inr clean_data"
    | x where "clean_chart_data d (dict_set acc (clean_key_of key) x) = Inr clean_data"
    unfolding p by (auto simp: Let_def split: if_splits sum.splits)
  then show ?case
  proof cases
    case 1
    from step [OF this] show ?thesis
      unfolding p by auto
  next
    case 2
    from step [OF this] show ?thesis
      unfolding p keys_dict_set by auto
  qed
qed

lemma keys_valid_items:
  assumes "valid_items d = Inr items"
  shows "fst ` set items \<subseteq> clean_key_of ` fst ` set d"
  using assms
proof (induction d arbitrary: items)
  case Nil
  then show ?case by auto
next
  case (Cons p d)
  obtain key v where p: "p = (key, v)" by (cases p)
  from Cons.prems
  consider "valid_items d = Inr items"
    | x rest where "valid_items d = Inr rest" and "items = (clean_key_of key, x) # rest"
    unfolding p by (auto simp: Let_def split: if_splits sum.splits)
  then show ?case
  proof cases
    case 1
    from Cons.IH [OF this] show ?thesis
      unfolding p by auto
  next
    case 2
    from Cons.IH [OF 2(1)] show ?thesis
      unfolding p 2(2) by auto
  qed
qed

lemma table_rows_keys:
  assumes "percentage_table data = DataTable table_rows"
  shows "fst ` set table_rows \<subseteq> clean_key_of ` fst ` set data"
proof -
  from assms obtain items where items: "valid_items data = Inr items"
    and rows: "table_rows =
      map (\<lambda>(opt, c). (opt, c, percentage (column_sum (map snd (sort_desc items))) c))
        (sort_desc items)"
    by (auto simp: percentage_table_def Let_def split: if_splits sum.splits)
  from rows have "fst ` set table_rows = fst ` set (sort_desc items)"
    by (force simp: image_iff)
  then show ?thesis
    using keys_valid_items [OF items] by (simp add: set_sort_desc)
qed
section \<open>The Other filter of the general page (C10)\<close>

lemma contains_map_iff:
  "contains sub (map f k) \<longleftrightarrow> (\<exists>ps w ss. k = ps @ w @ ss \<and> map f w = sub)"
proof
  assume "contains sub (map f k)"
  then obtain ps' ss' where "map f k = ps' @ sub @ ss'"
    unfolding contains_iff by blast
  then have "\<exists>us vs. k = us @ vs \<and> ps' = map f us \<and> sub @ ss' = map f vs"
    by (simp only: map_eq_append_conv)
  then obtain ps r where k1: "k = ps @ r" and r: "sub @ ss' = map f r"
    by blast
  from r have "\<exists>us vs. r = us @ vs \<and> sub = map f us \<and> ss' = map f vs"
    by (simp only: append_eq_map_conv)
  then obtain w ss where "r = w @ ss" and "map f w = sub"
    by blast
  with k1 show "\<exists>ps w ss. k = ps @ w @ ss \<and> map f w = sub" by blast
next
  assume "\<exists>ps w ss. k = ps @ w @ ss \<and> map f w = sub"
  then obtain ps w ss where "k = ps @ w @ ss" and "map f w = sub" by blast
  then have "map f k = map f ps @ sub @ map f ss" by simp
  then show "contains sub (map f k)"
    unfolding contains_iff by blast
qed

lemma other_in_clean_key:
  assumes "contains ''other'' (lower (clean_key_of key))"
  shows "contains ''other'' (lower key)"
proof (cases "key = []")
  case True
  have "\<not> contains ''other'' (lower ''Unknown'')"
    by (simp add: lower_def lower_char_def upper_case_def lower_case_def)
  with assms True show ?thesis by (simp add: clean_key_of_def)
next
  case False
  with assms show ?thesis by (simp add: clean_key_of_def)
qed

text \<open>
  C10. On the general page, when the selected question contains \<open>Q4:\<close> or \<open>Q5:\<close> and the
  total of its counts is positive, the data that the chart and the table are built
  from are the options whose label has no run of characters that reads \<open>other\<close> in
  lower case, in their order; otherwise the data are the options of the question as
  they are. Both the chart and the table are built from these data. So in the first
  case no label that contains \<open>other\<close> in any letter case, the merged \<open>Other\<close> in
  particular, is among the cleaned data that the chart is drawn from or among the rows
  of the percentage table.
\<close>

theorem filter_question_data_removes_other:
  "filter_question_data selected_question question_data =
     (if (contains ''Q4:'' selected_question \<or> contains ''Q5:'' selected_question)
         \<and> sum_list (map snd question_data) > 0
      then filter (\<lambda>(label, c). \<not> (\<exists>ps w ss. label = ps @ w @ ss \<and> lower w = ''other''))
             question_data
      else question_data)
   \<and> show_question styled selected_question question_data chart_type =
       (fst (create_chart_unified styled
               (py_values (filter_question_data selected_question question_data))
               (if chart_type = ''Bar Chart'' then ''bar''
                else if chart_type = ''Pie Chart'' then ''pie'' else ''horizontal_bar'')
               selected_question),
        snd (create_chart_unified styled
               (py_values (filter_question_data selected_question question_data))
               (if chart_type = ''Bar Chart'' then ''bar''
                else if chart_type = ''Pie Chart'' then ''pie'' else ''horizontal_bar'')
               selected_question),
        percentage_table (py_values (filter_question_data selected_question question_data)))
   \<and> ((contains ''Q4:'' selected_question \<or> contains ''Q5:'' selected_question)
        \<and> sum_list (map snd question_data) > 0 \<longrightarrow>
        (\<forall>label. contains ''other'' (lower label) \<longrightarrow>
           (\<forall>clean_data.
              clean_chart_data
                (py_values (filter_question_data selected_question question_data)) []
                = Inr clean_data
              \<longrightarrow> label \<notin> fst ` set clean_data)
           \<and> (\<forall>table_rows.
                 percentage_table
                   (py_values (filter_question_data selected_question question_data))
                   = DataTable table_rows
                 \<longrightarrow> label \<notin> fst ` set table_rows)))"
proof (intro conjI impI allI)
  have same: "(\<lambda>(label, c). \<not> contains ''other'' (lower label))
            = (\<lambda>(label :: string, c :: int).
                 \<not> (\<exists>ps w ss. label = ps @ w @ ss \<and> lower w = ''other''))"
    by (simp add: lower_def contains_map_iff)
  show eq: "filter_question_data selected_question question_data =
     (if (contains ''Q4:'' selected_question \<or> contains ''Q5:'' selected_question)
         \<and> sum_list (map snd question_data) > 0
      then filter (\<lambda>(label, c). \<not> (\<exists>ps w ss. label = ps @ w @ ss \<and> lower w = ''other''))
             question_data
      else question_data)"
    unfolding same [symmetric] by (auto simp: filter_question_data_def Let_def)
  show "show_question styled selected_question question_data chart_type =
       (fst (create_chart_unified styled
               (py_values (filter_question_data selected_question question_data))
               (if chart_type = ''Bar Chart'' then ''bar''
                else if chart_type = ''Pie Chart'' then ''pie'' else ''horizontal_bar'')
               selected_question),
        snd (create_chart_unified styled
               (py_values (filter_question_data selected_question question_data))
               (if chart_type = ''Bar Chart'' then ''bar''
                else if chart_type = ''Pie Chart'' then ''pie'' else ''horizontal_bar'')
               selected_question),
        percentage_table (py_values (filter_question_data selected_question question_data)))"
    by (simp add: show_question_def Let_def)
  {
    fix label
    assume q: "(contains ''Q4:'' selected_question \<or> contains ''Q5:'' selected_question)
        \<and> sum_list (map snd question_data) > 0"
      and other: "contains ''other'' (lower label)"
    let ?filtered = "filter_question_data selected_question question_data"
    have "?filtered = filter (\<lambda>(label, c). \<not> contains ''other'' (lower label)) question_data"
      using q by (auto simp: filter_question_data_def Let_def)
    then have keys: "\<forall>k \<in> fst ` set ?filtered. \<not> contains ''other'' (lower k)"
      by auto
    have clean: "\<forall>k \<in> clean_key_of ` fst ` set (py_values ?filtered).
                   \<not> contains ''other'' (lower k)"
    proof -
      have "fst ` set (py_values ?filtered) = fst ` set ?filtered"
        using keys_py_values [of ?filtered] by (metis set_map)
      then show ?thesis
        using keys other_in_clean_key by auto
    qed
    have absent: "label \<notin> clean_key_of ` fst ` set (py_values ?filtered)"
      using clean other by blast
    {
      fix clean_data
      assume "clean_chart_data (py_values ?filtered) [] = Inr clean_data"
      from keys_clean_chart_data [OF this]
      have "fst ` set clean_data \<subseteq> clean_key_of ` fst ` set (py_values ?filtered)"
        by simp
      with absent show "label \<notin> fst ` set clean_data"
        by blast
    }
    fix table_rows
    assume "percentage_table (py_values ?filtered) = DataTable table_rows"
    from table_rows_keys [OF this] absent show "label \<notin> fst ` set table_rows"
      by blast
  }
qed

lemma py_float_9: "py_float 9 = Inr (Float 9 0)"
  by code_simp

lemma percentage_9_9: "percentage (column_sum [Float 9 0]) (Float 9 0) = ''100.0%''"
  by code_simp

theorem filter_question_data_removes_other_witness:
  "filter_question_data ''Q4: Policy areas'' [(''Skills'', 9), (''Other'', 7)] = [(''Skills'', 9)]
   \<and> show_question None ''Q4: Policy areas'' [(''Skills'', 9), (''Other'', 7)] ''Bar Chart''
     = ([], BarChart [''Skills''] [Float 9 0] ''Q4: Policy areas'',
        DataTable [(''Skills'', Float 9 0, ''100.0%'')])"
proof -
  have filtered:
    "filter_question_data ''Q4: Policy areas'' [(''Skills'', 9), (''Other'', 7)] = [(''Skills'', 9)]"
    by (simp add: filter_question_data_def lower_def lower_char_def upper_case_def
        lower_case_def)
  have "show_question None ''Q4: Policy areas'' [(''Skills'', 9), (''Other'', 7)] ''Bar Chart''
     = (fst (create_chart_unified None (py_values [(''Skills'', 9)]) ''bar'' ''Q4: Policy areas''),
        snd (create_chart_unified None (py_values [(''Skills'', 9)]) ''bar'' ''Q4: Policy areas''),
        percentage_table (py_values [(''Skills'', 9)]))"
    using filter_question_data_removes_other
      [of "''Q4: Policy areas''" "[(''Skills'', 9), (''Other'', 7)]" None "''Bar Chart''"]
    by (simp only: filtered) simp
  then show ?thesis
    by (simp add: filtered py_values_def create_chart_unified_def clean_key_of_def
        clean_value_of_def py_float_9 fle_def process_title_for_display_def wrap_title_def
        max_length_def percentage_table_def sort_desc_def percentage_9_9)
qed

section \<open>The percentage table (C7, C8)\<close>

lemma py_float_values:
  "py_float 5 = Inr (Float 5 0)" "py_float (- 2) = Inr (Float (- 1) 1)"
  by code_simp+

lemma column_sum_values:
  "column_sum [Float 5 0, Float (- 1) 1] = Finite (Float 3 0)"
  by code_simp

lemma percentage_values:
  "percentage (Finite (Float 3 0)) (Float 5 0) = ''166.7%''"
  "percentage (Finite (Float 3 0)) (Float (- 1) 1) = ''-66.7%''"
  by code_simp+

text \<open>
  C8: the cleaning loop of the chart drops the option with the negative count, the loop
  of the table has no such test and keeps it, so a negative count reaches the table
  (and enters the total that the percentages are taken of).
\<close>

theorem negative_count_reaches_table:
  "clean_chart_data (py_values [(''A'', 5), (''B'', - 2)]) [] = Inr [(''A'', Float 5 0)]
   \<and> percentage_table (py_values [(''A'', 5), (''B'', - 2)])
     = DataTable [(''A'', Float 5 0, ''166.7%''), (''B'', Float (- 1) 1, ''-66.7%'')]"
  by (simp add: percentage_table_def py_values_def clean_key_of_def clean_value_of_def
      py_float_values sort_desc_def fle_def column_sum_values percentage_values)

end
